theory Spec2Isabelle
  imports Main "HOL-Library.Word"
begin

unbundle bit_operations_syntax

section \<open>Basic types\<close>

type_synonym byte = "8 word"
type_synonym uint32 = "32 word"
type_synonym uint64 = "64 word"
type_synonym int64 = "64 word"

text \<open>
  The error values of the Go code. Errors created with \<open>errors.New\<close> and
  \<open>fmt.Errorf\<close> are one constructor each; \<open>ExtErr\<close> stands for an error that comes
  from outside the repository (the operating system, the HTTP client, zlib).
\<close>

datatype go_error =
    EOF
  | ErrUnexpectedEOF
  | ErrInvalid
  | BadWireType
  | BufferTooSmall
  | ValueLargerThan64
  | SizeMismatch
  | PlainNodeNotSupported
  | UnsupportedField uint64
  | UnsupportedPrimativeGroupField uint64
  | Stopped
  | CorruptTooMuchData
  | NoNamesFound
  | HttpStatus int
  | SyntaxError
  | RangeError
  | ExtErr nat

text \<open>
  The outcome of a piece of code that works on a state: it finishes (\<open>Ok\<close>), it
  returns a non-nil error (\<open>Error\<close>, with the state as the code left it, since
  the closures of the source mutate captured variables before they fail), or the Go
  runtime panics (index or slice bounds out of range).
\<close>

datatype 's result = Ok 's | Error go_error 's | Panic

section \<open>encoding/binary: Uvarint and Varint\<close>

text \<open>
  \<open>binary.Uvarint\<close> of the Go standard library: the decoded value and the number
  of bytes read; \<open>n = 0\<close> when the buffer is too small, \<open>n < 0\<close> on overflow.
\<close>

fun Uvarint_loop :: "byte list \<Rightarrow> nat \<Rightarrow> uint64 \<Rightarrow> nat \<Rightarrow> uint64 \<times> int" where
  "Uvarint_loop [] i x s = (0, 0)"
| "Uvarint_loop (b # bs) i x s =
     (if i = 10 then (0, - (int i + 1))
      else if b < 0x80 then
        (if i = 9 \<and> b > 1 then (0, - (int i + 1))
         else (x OR push_bit s (ucast b), int i + 1))
      else Uvarint_loop bs (i + 1) (x OR push_bit s (ucast (b AND 0x7f))) (s + 7))"

definition Uvarint :: "byte list \<Rightarrow> uint64 \<times> int" where
  "Uvarint buf = Uvarint_loop buf 0 0 0"

definition Varint :: "byte list \<Rightarrow> int64 \<times> int" where
  "Varint buf =
     (let (ux, n) = Uvarint buf;
          x = drop_bit 1 ux
      in (if ux AND 1 \<noteq> 0 then NOT x else x, n))"

section \<open>Packed varint arrays (internal/pbf)\<close>

function ForEachPackedUint64 ::
  "byte list \<Rightarrow> (uint64 \<Rightarrow> 's \<Rightarrow> 's result) \<Rightarrow> 's \<Rightarrow> 's result" where
  "ForEachPackedUint64 dat iter s =
     (if dat = [] then Ok s
      else (let (x, n) = Uvarint dat in
        if n \<le> 0 then
          (if n = 0 then Error BufferTooSmall s else Error ValueLargerThan64 s)
        else (case iter x s of
                Ok s' \<Rightarrow> ForEachPackedUint64 (drop (nat n) dat) iter s'
              | Error e s' \<Rightarrow> Error e s'
              | Panic \<Rightarrow> Panic)))"
  by pat_completeness auto
termination
  by (relation "measure (\<lambda>(dat, iter, s). length dat)") auto

function ForEachPackedInt64 ::
  "byte list \<Rightarrow> (int64 \<Rightarrow> 's \<Rightarrow> 's result) \<Rightarrow> 's \<Rightarrow> 's result" where
  "ForEachPackedInt64 dat iter s =
     (if dat = [] then Ok s
      else (let (x, n) = Varint dat in
        if n \<le> 0 then
          (if n = 0 then Error BufferTooSmall s else Error ValueLargerThan64 s)
        else (case iter x s of
                Ok s' \<Rightarrow> ForEachPackedInt64 (drop (nat n) dat) iter s'
              | Error e s' \<Rightarrow> Error e s'
              | Panic \<Rightarrow> Panic)))"
  by pat_completeness auto
termination
  by (relation "measure (\<lambda>(dat, iter, s). length dat)") auto


text \<open>
  The reference encoders, as the specification words them: 7-bit groups, least
  significant group first, the most significant bit of a byte set when another byte
  follows; signed values go through the zig-zag map \<open>(n << 1) ^ (n >> 63)\<close> first.
\<close>

function PutUvarint :: "uint64 \<Rightarrow> byte list" where
  "PutUvarint x =
     (if x \<ge> 0x80 then (ucast x OR 0x80) # PutUvarint (drop_bit 7 x) else [ucast x])"
  by pat_completeness auto
termination
proof (relation "measure unat")
  show "wf (measure (unat :: uint64 \<Rightarrow> nat))" by simp
next
  fix x :: uint64 assume "0x80 \<le> x"
  then have "128 \<le> unat x" by (simp add: word_le_nat_alt)
  then have "unat x div 2 ^ 7 < unat x" by simp
  then have "unat (drop_bit 7 x) < unat x"
    by (simp only: unat_drop_bit_eq) (simp only: drop_bit_eq_div)
  then show "(drop_bit 7 x, x) \<in> measure unat" by simp
qed

definition PutVarint :: "int64 \<Rightarrow> byte list" where
  "PutVarint x = PutUvarint (push_bit 1 x XOR signed_drop_bit 63 x)"

text \<open>The values a packed array holds, in order: the iterator that appends each one.\<close>

definition packedUint64s :: "byte list \<Rightarrow> uint64 list result" where
  "packedUint64s dat = ForEachPackedUint64 dat (\<lambda>x acc. Ok (acc @ [x])) []"

definition packedInt64s :: "byte list \<Rightarrow> int64 list result" where
  "packedInt64s dat = ForEachPackedInt64 dat (\<lambda>x acc. Ok (acc @ [x])) []"

section \<open>Fields (internal/pbf)\<close>

record Field =
  f_num :: uint64
  f_typ :: uint64
  f_data :: "byte list"

definition typeVarint :: uint64 where "typeVarint = 0"
definition type64Bit :: uint64 where "type64Bit = 1"
definition typeLength :: uint64 where "typeLength = 2"
definition type32Bit :: uint64 where "type32Bit = 5"

text \<open>
  \<open>binary.LittleEndian.Uint32\<close> and \<open>Uint64\<close>, \<open>binary.BigEndian.Uint32\<close>. The
  readers below only hand them buffers of exactly 4 or 8 bytes.
\<close>

definition LittleEndian :: "byte list \<Rightarrow> 'a::len word" where
  "LittleEndian bs = foldr (\<lambda>b acc. ucast b OR push_bit 8 acc) bs 0"

definition BigEndian :: "byte list \<Rightarrow> 'a::len word" where
  "BigEndian bs = foldl (\<lambda>acc b. push_bit 8 acc OR ucast b) 0 bs"

definition Uint64 :: "Field \<Rightarrow> uint64" where
  "Uint64 f =
     (if f_typ f = type32Bit then ucast (LittleEndian (take 4 (f_data f)) :: uint32)
      else if f_typ f = type64Bit then LittleEndian (take 8 (f_data f))
      else if f_typ f = typeVarint then fst (Uvarint (f_data f))
      else 0)"

definition Int64 :: "Field \<Rightarrow> int64" where
  "Int64 f =
     (if f_typ f = type32Bit then ucast (LittleEndian (take 4 (f_data f)) :: uint32)
      else if f_typ f = type64Bit then LittleEndian (take 8 (f_data f))
      else if f_typ f = typeVarint then fst (Varint (f_data f))
      else 0)"

definition Num :: "Field \<Rightarrow> uint64" where
  "Num f = f_num f"

definition Data :: "Field \<Rightarrow> byte list" where
  "Data f = (if f_typ f = typeLength then f_data f else [])"

text \<open>
  \<open>reader.readField\<close> on the unread bytes \<open>ptr\<close>: an error, or the field and the
  bytes left. \<open>readBody\<close> is its second half, from the length check on. (The sticky
  \<open>err\<close> of the reader is not needed: \<open>ForEachField\<close> stops at the first error.)
\<close>

definition readBody ::
  "uint64 \<Rightarrow> uint64 \<Rightarrow> uint64 \<Rightarrow> nat \<Rightarrow> byte list \<Rightarrow> go_error + (Field \<times> byte list)" where
  "readBody fnum ftyp x n ptr =
     (if length ptr < n then Inl ErrUnexpectedEOF
      else (let dat = take n ptr; ptr' = drop n ptr in
        if ftyp = typeLength then
          (if unat x > length ptr' then Inl ErrUnexpectedEOF
           else Inr (\<lparr>f_num = fnum, f_typ = ftyp, f_data = take (unat x) ptr'\<rparr>,
                     drop (unat x) ptr'))
        else Inr (\<lparr>f_num = fnum, f_typ = ftyp, f_data = dat\<rparr>, ptr')))"

definition readField :: "byte list \<Rightarrow> go_error + (Field \<times> byte list)" where
  "readField ptr =
     (if ptr = [] then Inl EOF
      else (let (x, n) = Uvarint ptr in
        if n \<le> 0 then Inl ErrInvalid
        else (let ptr1 = drop (nat n) ptr;
                  fnum = drop_bit 3 x;
                  ftyp = x AND 7 in
          if ftyp = typeVarint \<or> ftyp = typeLength then
            (let (x2, n2) = Uvarint ptr1 in
              if n2 \<le> 0 then Inl ErrInvalid
              else readBody fnum ftyp x2 (nat n2) ptr1)
          else if ftyp = type64Bit then readBody fnum ftyp x 8 ptr1
          else if ftyp = type32Bit then readBody fnum ftyp x 4 ptr1
          else Inl BadWireType)))"

function ForEachField ::
  "byte list \<Rightarrow> (Field \<Rightarrow> 's \<Rightarrow> 's result) \<Rightarrow> 's \<Rightarrow> 's result" where
  "ForEachField bytes iter s =
     (case readField bytes of
        Inl e \<Rightarrow> (if e = EOF then Ok s else Error e s)
      | Inr (f, rest) \<Rightarrow>
          (case iter f s of
             Ok s' \<Rightarrow> ForEachField rest iter s'
           | Error e s' \<Rightarrow> Error e s'
           | Panic \<Rightarrow> Panic))"
  by pat_completeness auto
termination
proof (relation "measure (\<lambda>(bytes, iter, s). length bytes)")
  show "wf (measure (\<lambda>(bytes, iter :: Field \<Rightarrow> 's \<Rightarrow> 's result, s :: 's). length bytes))"
    by simp
next
  fix bytes :: "byte list" and iter :: "Field \<Rightarrow> 's \<Rightarrow> 's result" and s s' :: 's
    and x f rest
  assume rf: "readField bytes = Inr x" and x: "(f, rest) = x"
  have body: "\<And>a b c n p g q. readBody a b c n p = Inr (g, q) \<Longrightarrow> length q \<le> length p"
    by (auto simp add: readBody_def Let_def split: if_splits)
  have shrink: "\<And>(n::int) k. \<not> n \<le> 0 \<Longrightarrow> k \<le> length bytes - nat n \<Longrightarrow> bytes \<noteq> []
      \<Longrightarrow> k < length bytes"
    by (cases bytes) auto
  from rf x have "length rest < length bytes"
    by (auto simp add: readField_def Let_def split: if_splits prod.splits dest!: body
        intro: shrink)
  then show "((rest, iter, s'), (bytes, iter, s)) \<in> measure (\<lambda>(bytes, iter, s). length bytes)"
    by simp
qed


section \<open>Blocks\<close>

text \<open>
  The structs of the block. \<open>node_lat\<close> and \<open>node_lon\<close> hold the int64 value that the
  source converts to float64 and scales by \<open>1e-9\<close> (\<open>latOffset + granularity * latAdder\<close>);
  the floating-point scaling itself is left out.
\<close>

record blockNode =
  node_id :: int64
  node_lat :: int64
  node_lon :: int64
  node_sset :: uint32
  node_send :: uint32

record blockWay =
  way_id :: int64
  way_sset :: uint32
  way_send :: uint32
  way_rset :: uint32
  way_rend :: uint32

record blockRelation =
  rel_id :: int64
  rel_sset :: uint32
  rel_send :: uint32
  rel_mset :: uint32
  rel_mend :: uint32

record Block =
  granularity :: int64
  latOffset :: int64
  lonOffset :: int64
  dateGranularity :: int64
  dataKind :: int
  stringsCount :: nat
  stringsOne :: "byte list"
  strings :: "byte list list"
  nodes :: "blockNode list"
  nodeStrings :: "uint32 list"
  ways :: "blockWay list"
  wayStrings :: "uint32 list"
  wayRefs :: "int64 list"
  relations :: "blockRelation list"
  relationStrings :: "uint32 list"
  relationMemberRoles :: "uint32 list"
  relationMemberRefs :: "int64 list"
  relationMemberTypes :: "byte list"

text \<open>The zero values \<open>blockNode{}\<close>, \<open>blockWay{}\<close>, \<open>blockRelation{}\<close> and \<open>Block{}\<close>.\<close>

definition zeroNode :: blockNode where
  "zeroNode = \<lparr>node_id = 0, node_lat = 0, node_lon = 0, node_sset = 0, node_send = 0\<rparr>"

definition zeroWay :: blockWay where
  "zeroWay = \<lparr>way_id = 0, way_sset = 0, way_send = 0, way_rset = 0, way_rend = 0\<rparr>"

definition zeroRelation :: blockRelation where
  "zeroRelation = \<lparr>rel_id = 0, rel_sset = 0, rel_send = 0, rel_mset = 0, rel_mend = 0\<rparr>"

definition zeroBlock :: Block where
  "zeroBlock = \<lparr>granularity = 0, latOffset = 0, lonOffset = 0, dateGranularity = 0,
     dataKind = 0, stringsCount = 0, stringsOne = [], strings = [],
     nodes = [], nodeStrings = [], ways = [], wayStrings = [], wayRefs = [],
     relations = [], relationStrings = [], relationMemberRoles = [],
     relationMemberRefs = [], relationMemberTypes = []\<rparr>"

datatype What = Everything | DataKinds | Strings | Nodes | Ways | Relations

text \<open>Dropping the variables that are local to one closure from an outcome.\<close>

fun mapResult :: "('a \<Rightarrow> 'b) \<Rightarrow> 'a result \<Rightarrow> 'b result" where
  "mapResult g (Ok s) = Ok (g s)"
| "mapResult g (Error e s) = Error e (g s)"
| "mapResult g Panic = Panic"

subsection \<open>Dense nodes\<close>

text \<open>The first pass of \<open>procDenseNodes\<close> counts the nodes and the strings.\<close>

definition countKeysVals :: "uint64 \<Rightarrow> bool \<times> nat \<Rightarrow> (bool \<times> nat) result" where
  "countKeysVals x = (\<lambda>(which, numStrings).
     if \<not> which \<and> x = 0 then Ok (which, numStrings)
     else Ok (\<not> which, numStrings + 1))"

definition countDense :: "Field \<Rightarrow> nat \<times> nat \<Rightarrow> (nat \<times> nat) result" where
  "countDense f = (\<lambda>(numNodes, numStrings).
     if Num f = 1 then
       ForEachPackedInt64 (f_data f) (\<lambda>x (n, k). Ok (n + 1, k)) (numNodes, numStrings)
     else if Num f = 10 then
       mapResult (\<lambda>(which, k). (numNodes, k))
         (ForEachPackedUint64 (f_data f) countKeysVals (False, numStrings))
     else Ok (numNodes, numStrings))"

text \<open>
  The variables the closures of the second pass capture: the two arrays and the three
  running sums.
\<close>

record denseState =
  ds_nodes :: "blockNode list"
  ds_nodeStrings :: "uint32 list"
  ds_idAdder :: int64
  ds_latAdder :: int64
  ds_lonAdder :: int64

definition denseId :: "int64 \<Rightarrow> nat \<times> denseState \<Rightarrow> (nat \<times> denseState) result" where
  "denseId x = (\<lambda>(i, st).
     let a = ds_idAdder st + x in
     if i < length (ds_nodes st) then
       Ok (i + 1, st\<lparr>ds_idAdder := a,
                      ds_nodes := (ds_nodes st)[i := (ds_nodes st ! i)\<lparr>node_id := a\<rparr>]\<rparr>)
     else Panic)"

definition denseLat :: "Block \<Rightarrow> int64 \<Rightarrow> nat \<times> denseState \<Rightarrow> (nat \<times> denseState) result" where
  "denseLat block x = (\<lambda>(i, st).
     let a = ds_latAdder st + x in
     if i < length (ds_nodes st) then
       Ok (i + 1, st\<lparr>ds_latAdder := a,
                      ds_nodes := (ds_nodes st)[i := (ds_nodes st ! i)
                        \<lparr>node_lat := latOffset block + granularity block * a\<rparr>]\<rparr>)
     else Panic)"

definition denseLon :: "Block \<Rightarrow> int64 \<Rightarrow> nat \<times> denseState \<Rightarrow> (nat \<times> denseState) result" where
  "denseLon block x = (\<lambda>(i, st).
     let a = ds_lonAdder st + x in
     if i < length (ds_nodes st) then
       Ok (i + 1, st\<lparr>ds_lonAdder := a,
                      ds_nodes := (ds_nodes st)[i := (ds_nodes st ! i)
                        \<lparr>node_lon := lonOffset block + granularity block * a\<rparr>]\<rparr>)
     else Panic)"

text \<open>
  The closure over field 10 (\<open>keys_vals\<close>); its own variables are \<open>stringIdx\<close>,
  \<open>nodeIdx\<close>, \<open>which\<close> and \<open>first\<close>. Every indexed write panics out of range.
\<close>

record kvState =
  kv_stringIdx :: uint32
  kv_nodeIdx :: nat
  kv_which :: bool
  kv_first :: bool

definition kvStart :: kvState where
  "kvStart = \<lparr>kv_stringIdx = 0, kv_nodeIdx = 0, kv_which = False, kv_first = False\<rparr>"

definition denseKeysVals ::
  "uint64 \<Rightarrow> kvState \<times> denseState \<Rightarrow> (kvState \<times> denseState) result" where
  "denseKeysVals x = (\<lambda>(kv, st).
     if \<not> kv_which kv \<and> x = 0 then
       Ok (kv\<lparr>kv_nodeIdx := kv_nodeIdx kv + 1, kv_first := False\<rparr>, st)
     else if kv_nodeIdx kv < length (ds_nodes st)
           \<and> unat (kv_stringIdx kv) < length (ds_nodeStrings st) then
       (let j = kv_nodeIdx kv;
            ns1 = (if \<not> kv_first kv
                   then (ds_nodes st)[j := (ds_nodes st ! j)\<lparr>node_sset := kv_stringIdx kv\<rparr>]
                   else ds_nodes st);
            strs = (ds_nodeStrings st)[unat (kv_stringIdx kv) := ucast x];
            stringIdx = kv_stringIdx kv + 1;
            ns2 = ns1[j := (ns1 ! j)\<lparr>node_send := stringIdx\<rparr>]
        in Ok (kv\<lparr>kv_stringIdx := stringIdx, kv_which := \<not> kv_which kv, kv_first := True\<rparr>,
               st\<lparr>ds_nodes := ns2, ds_nodeStrings := strs\<rparr>))
     else Panic)"

definition fillDense :: "Block \<Rightarrow> Field \<Rightarrow> denseState \<Rightarrow> denseState result" where
  "fillDense block f st =
     (if Num f = 1 then mapResult snd (ForEachPackedInt64 (f_data f) denseId (0, st))
      else if Num f = 8 then mapResult snd (ForEachPackedInt64 (f_data f) (denseLat block) (0, st))
      else if Num f = 9 then mapResult snd (ForEachPackedInt64 (f_data f) (denseLon block) (0, st))
      else if Num f = 10 then
        mapResult snd (ForEachPackedUint64 (f_data f) denseKeysVals (kvStart, st))
      else Ok st)"

definition procDenseNodes :: "What \<Rightarrow> byte list \<Rightarrow> Block \<Rightarrow> Block result" where
  "procDenseNodes what dat block =
     (case ForEachField dat countDense (0, 0) of
        Panic \<Rightarrow> Panic
      | Error e c \<Rightarrow> Error e block
      | Ok (numNodes, numStrings) \<Rightarrow>
          (case ForEachField dat (fillDense block)
                  \<lparr>ds_nodes = replicate numNodes zeroNode,
                   ds_nodeStrings = replicate numStrings 0,
                   ds_idAdder = 0, ds_latAdder = 0, ds_lonAdder = 0\<rparr> of
             Panic \<Rightarrow> Panic
           | Error e st \<Rightarrow> Error e block
           | Ok st \<Rightarrow> Ok (block\<lparr>nodes := nodes block @ ds_nodes st,
                                 nodeStrings := nodeStrings block @ ds_nodeStrings st\<rparr>)))"


subsection \<open>Ways\<close>

text \<open>
  The variables the closures of \<open>procWay\<close> share: the way under construction, the
  index of the next value slot, and the block (a pointer in the source, so what a
  closure appended stays appended when a later field fails).
\<close>

record wayState =
  ws_way :: blockWay
  ws_strValIdx :: nat
  ws_block :: Block

definition wayKey :: "uint64 \<Rightarrow> wayState \<Rightarrow> wayState result" where
  "wayKey x st =
     Ok (st\<lparr>ws_block := (ws_block st)\<lparr>wayStrings := wayStrings (ws_block st) @ [ucast x, 0]\<rparr>\<rparr>)"

definition wayVal :: "uint64 \<Rightarrow> wayState \<Rightarrow> wayState result" where
  "wayVal x st =
     (if ws_strValIdx st < length (wayStrings (ws_block st)) then
        Ok (st\<lparr>ws_block := (ws_block st)
                   \<lparr>wayStrings := (wayStrings (ws_block st))[ws_strValIdx st := ucast x]\<rparr>,
                ws_strValIdx := ws_strValIdx st + 2\<rparr>)
      else Panic)"

definition wayRef :: "int64 \<Rightarrow> int64 \<times> wayState \<Rightarrow> (int64 \<times> wayState) result" where
  "wayRef x = (\<lambda>(refAdder, st).
     let a = refAdder + x in
     Ok (a, st\<lparr>ws_block := (ws_block st)\<lparr>wayRefs := wayRefs (ws_block st) @ [a]\<rparr>\<rparr>))"

definition wayField :: "Field \<Rightarrow> wayState \<Rightarrow> wayState result" where
  "wayField f st =
     (if Num f = 1 then Ok (st\<lparr>ws_way := (ws_way st)\<lparr>way_id := Uint64 f\<rparr>\<rparr>)
      else if Num f = 2 then ForEachPackedUint64 (f_data f) wayKey st
      else if Num f = 3 then ForEachPackedUint64 (f_data f) wayVal st
      else if Num f = 8 then mapResult snd (ForEachPackedInt64 (f_data f) wayRef (0, st))
      else Ok st)"

definition procWay :: "What \<Rightarrow> byte list \<Rightarrow> Block \<Rightarrow> Block result" where
  "procWay what dat block =
     (case ForEachField dat wayField
             \<lparr>ws_way = zeroWay\<lparr>way_sset := of_nat (length (wayStrings block)),
                                way_rset := of_nat (length (wayRefs block))\<rparr>,
              ws_strValIdx = length (wayStrings block) + 1,
              ws_block = block\<rparr> of
        Panic \<Rightarrow> Panic
      | Error e st \<Rightarrow> Error e (ws_block st)
      | Ok st \<Rightarrow>
          (let b = ws_block st;
               way = (ws_way st)\<lparr>way_send := of_nat (length (wayStrings b)),
                                 way_rend := of_nat (length (wayRefs b))\<rparr>
           in Ok (b\<lparr>ways := ways b @ [way]\<rparr>)))"

subsection \<open>Relations\<close>

record relState =
  rs_relation :: blockRelation
  rs_strValIdx :: nat
  rs_block :: Block

definition relKey :: "uint64 \<Rightarrow> relState \<Rightarrow> relState result" where
  "relKey x st =
     Ok (st\<lparr>rs_block := (rs_block st)
                \<lparr>relationStrings := relationStrings (rs_block st) @ [ucast x, 0]\<rparr>\<rparr>)"

definition relVal :: "uint64 \<Rightarrow> relState \<Rightarrow> relState result" where
  "relVal x st =
     (if rs_strValIdx st < length (relationStrings (rs_block st)) then
        Ok (st\<lparr>rs_block := (rs_block st)
                   \<lparr>relationStrings := (relationStrings (rs_block st))[rs_strValIdx st := ucast x]\<rparr>,
                rs_strValIdx := rs_strValIdx st + 2\<rparr>)
      else Panic)"

definition relRole :: "uint64 \<Rightarrow> relState \<Rightarrow> relState result" where
  "relRole x st =
     Ok (st\<lparr>rs_block := (rs_block st)
                \<lparr>relationMemberRoles := relationMemberRoles (rs_block st) @ [ucast x]\<rparr>\<rparr>)"

definition relMemid :: "int64 \<Rightarrow> int64 \<times> relState \<Rightarrow> (int64 \<times> relState) result" where
  "relMemid x = (\<lambda>(delta, st).
     let a = delta + x in
     Ok (a, st\<lparr>rs_block := (rs_block st)
                   \<lparr>relationMemberRefs := relationMemberRefs (rs_block st) @ [a]\<rparr>\<rparr>))"

definition relType :: "uint64 \<Rightarrow> relState \<Rightarrow> relState result" where
  "relType x st =
     Ok (st\<lparr>rs_block := (rs_block st)
                \<lparr>relationMemberTypes := relationMemberTypes (rs_block st) @ [ucast x]\<rparr>\<rparr>)"

definition relField :: "Field \<Rightarrow> relState \<Rightarrow> relState result" where
  "relField f st =
     (if Num f = 1 then Ok (st\<lparr>rs_relation := (rs_relation st)\<lparr>rel_id := Uint64 f\<rparr>\<rparr>)
      else if Num f = 2 then ForEachPackedUint64 (f_data f) relKey st
      else if Num f = 3 then ForEachPackedUint64 (f_data f) relVal st
      else if Num f = 8 then ForEachPackedUint64 (f_data f) relRole st
      else if Num f = 9 then mapResult snd (ForEachPackedInt64 (f_data f) relMemid (0, st))
      else if Num f = 10 then ForEachPackedUint64 (f_data f) relType st
      else Ok st)"

definition procRelation :: "What \<Rightarrow> byte list \<Rightarrow> Block \<Rightarrow> Block result" where
  "procRelation what dat block =
     (case ForEachField dat relField
             \<lparr>rs_relation = zeroRelation
                \<lparr>rel_sset := of_nat (length (relationStrings block)),
                 rel_mset := of_nat (length (relationMemberRefs block))\<rparr>,
              rs_strValIdx = length (relationStrings block) + 1,
              rs_block = block\<rparr> of
        Panic \<Rightarrow> Panic
      | Error e st \<Rightarrow> Error e (rs_block st)
      | Ok st \<Rightarrow>
          (let b = rs_block st;
               relation = (rs_relation st)
                 \<lparr>rel_send := of_nat (length (relationStrings b)),
                  rel_mend := of_nat (length (relationMemberRefs b))\<rparr>
           in Ok (b\<lparr>relations := relations b @ [relation]\<rparr>)))"

subsection \<open>Primitive groups, the string table and the block\<close>

text \<open>
  \<open>procPrimativeGroup\<close> calls the three decoders as statements: the error they return
  is dropped, what they did to the block stays, a panic goes through.
\<close>

fun dropError :: "'s result \<Rightarrow> 's result" where
  "dropError (Ok s) = Ok s"
| "dropError (Error e s) = Ok s"
| "dropError Panic = Panic"

definition groupField :: "What \<Rightarrow> Field \<Rightarrow> Block \<Rightarrow> Block result" where
  "groupField what f block =
     (if Num f = 1 then Error PlainNodeNotSupported block
      else if Num f = 2 then
        (let b = block\<lparr>dataKind := 0\<rparr> in
         if what = Everything \<or> what = Nodes then dropError (procDenseNodes what (Data f) b)
         else Ok b)
      else if Num f = 3 then
        (let b = block\<lparr>dataKind := 1\<rparr> in
         if what = Everything \<or> what = Ways then dropError (procWay what (Data f) b)
         else Ok b)
      else if Num f = 4 then
        (let b = block\<lparr>dataKind := 2\<rparr> in
         if what = Everything \<or> what = Relations then dropError (procRelation what (Data f) b)
         else Ok b)
      else if Num f = 5 then Ok block
      else Error (UnsupportedPrimativeGroupField (Num f)) block)"

definition procPrimativeGroup :: "What \<Rightarrow> byte list \<Rightarrow> Block \<Rightarrow> Block result" where
  "procPrimativeGroup what dat block = ForEachField dat (groupField what) block"

definition detectKind :: "Field \<Rightarrow> int \<Rightarrow> int result" where
  "detectKind f k =
     (if Num f = 2 then Error EOF 0
      else if Num f = 3 then Error EOF 1
      else if Num f = 4 then Error EOF 2
      else Ok k)"

definition onlyDetectPrimativeDataKind :: "What \<Rightarrow> byte list \<Rightarrow> int \<times> go_error option" where
  "onlyDetectPrimativeDataKind what dat =
     (case ForEachField dat detectKind (- 1) of
        Ok k \<Rightarrow> (k, None)
      | Error e k \<Rightarrow> (k, if e = EOF then None else Some e)
      | Panic \<Rightarrow> (- 1, None))"

text \<open>
  \<open>procStringTable\<close>: the strings are kept as byte lists, \<open>stringsOne\<close> is their
  concatenation. The second walk over the same bytes cannot fail where the first did not;
  the source drops its error.
\<close>

definition countString :: "Field \<Rightarrow> nat \<times> nat \<Rightarrow> (nat \<times> nat) result" where
  "countString f = (\<lambda>(count, len). Ok (count + 1, len + length (Data f)))"

definition addString :: "Field \<Rightarrow> byte list \<times> Block \<Rightarrow> (byte list \<times> Block) result" where
  "addString f = (\<lambda>(one, b). Ok (one @ Data f, b\<lparr>strings := strings b @ [Data f]\<rparr>))"

definition procStringTable :: "What \<Rightarrow> byte list \<Rightarrow> Block \<Rightarrow> Block result" where
  "procStringTable what dat block =
     (case ForEachField dat countString (0, 0) of
        Panic \<Rightarrow> Panic
      | Error e c \<Rightarrow> Error e block
      | Ok (count, len) \<Rightarrow>
          (case dropError (ForEachField dat addString
                             ([], block\<lparr>stringsCount := count, strings := []\<rparr>)) of
             Ok (one, b) \<Rightarrow> Ok (b\<lparr>stringsOne := one\<rparr>)
           | Error e (one, b) \<Rightarrow> Ok (b\<lparr>stringsOne := one\<rparr>)
           | Panic \<Rightarrow> Panic))"

text \<open>
  \<open>procBlock\<close>. The closure over the top-level fields works on the block, the string
  table bytes and the list of primitive groups.
\<close>

record blockState =
  bs_block :: Block
  bs_stringTable :: "byte list"
  bs_primativeGroups :: "byte list list"

definition blockField :: "What \<Rightarrow> Field \<Rightarrow> blockState \<Rightarrow> blockState result" where
  "blockField what f st =
     (if Num f = 1 then Ok (st\<lparr>bs_stringTable := Data f\<rparr>)
      else if Num f = 2 then
        (if what = DataKinds then
           (case onlyDetectPrimativeDataKind what (Data f) of
              (k, perr) \<Rightarrow>
                (let st1 = st\<lparr>bs_block := (bs_block st)\<lparr>dataKind := k\<rparr>\<rparr> in
                 case perr of Some e \<Rightarrow> Error e st1 | None \<Rightarrow> Ok st1))
         else if what \<noteq> Strings then
           Ok (st\<lparr>bs_primativeGroups := bs_primativeGroups st @ [Data f]\<rparr>)
         else Ok st)
      else if Num f = 17 then Ok (st\<lparr>bs_block := (bs_block st)\<lparr>granularity := Int64 f\<rparr>\<rparr>)
      else if Num f = 18 then Ok (st\<lparr>bs_block := (bs_block st)\<lparr>dateGranularity := Int64 f\<rparr>\<rparr>)
      else if Num f = 19 then Ok (st\<lparr>bs_block := (bs_block st)\<lparr>latOffset := Int64 f\<rparr>\<rparr>)
      else if Num f = 20 then Ok (st\<lparr>bs_block := (bs_block st)\<lparr>lonOffset := Int64 f\<rparr>\<rparr>)
      else Error (UnsupportedField (Num f)) st)"

fun procGroups :: "What \<Rightarrow> byte list list \<Rightarrow> Block \<Rightarrow> Block result" where
  "procGroups what [] block = Ok block"
| "procGroups what (g # gs) block =
     (case procPrimativeGroup what g block of
        Ok b \<Rightarrow> procGroups what gs b
      | Error e b \<Rightarrow> Error e b
      | Panic \<Rightarrow> Panic)"

text \<open>
  The result of \<open>procBlock\<close>: \<open>Ok block\<close> for \<open>(block, nil)\<close> and \<open>Error e zeroBlock\<close>
  for \<open>(Block{}, err)\<close>.
\<close>

definition procBlock :: "What \<Rightarrow> byte list \<Rightarrow> Block result" where
  "procBlock what dat =
     (case ForEachField dat (blockField what)
             \<lparr>bs_block = zeroBlock\<lparr>granularity := 100, dateGranularity := 1000\<rparr>,
              bs_stringTable = [], bs_primativeGroups = []\<rparr> of
        Panic \<Rightarrow> Panic
      | Error e st \<Rightarrow> Error e zeroBlock
      | Ok st \<Rightarrow>
          (if what \<noteq> DataKinds then
             (case procStringTable what (bs_stringTable st) (bs_block st) of
                Panic \<Rightarrow> Panic
              | Error e b \<Rightarrow> Error e zeroBlock
              | Ok b \<Rightarrow>
                  (case procGroups what (bs_primativeGroups st) b of
                     Panic \<Rightarrow> Panic
                   | Error e b' \<Rightarrow> Error e zeroBlock
                   | Ok b' \<Rightarrow> Ok b'))
           else Ok (bs_block st)))"


subsection \<open>The accessors of a block\<close>

text \<open>
  Go's \<open>a[lo:hi][index]\<close> for a slice \<open>a\<close> of capacity \<open>c\<close> (at least its length, and \<open>0\<close>
  for a nil slice). The window is checked against the capacity and the index against the
  window; \<open>None\<close> is the run-time panic (slice bounds or index out of range). The element
  read is that of the backing array: an element of \<open>a\<close> below its length and the zero
  value in the spare capacity, which \<open>append\<close> leaves cleared.
\<close>

definition sliceIndex :: "'a::zero list \<Rightarrow> nat \<Rightarrow> uint32 \<Rightarrow> uint32 \<Rightarrow> int \<Rightarrow> 'a option" where
  "sliceIndex a c lo hi i =
     (if unat lo \<le> unat hi \<and> unat hi \<le> c \<and> 0 \<le> i \<and> nat i < unat hi - unat lo
      then Some (if unat lo + nat i < length a then a ! (unat lo + nat i) else 0)
      else None)"

definition Block_StringAt :: "Block \<Rightarrow> int \<Rightarrow> byte list option" where
  "Block_StringAt b i =
     (if 0 \<le> i \<and> nat i < length (strings b) then Some (strings b ! nat i) else None)"


definition Node_StringAt :: "Block \<Rightarrow> nat \<Rightarrow> blockNode \<Rightarrow> int \<Rightarrow> byte list option" where
  "Node_StringAt b c n i =
     (case sliceIndex (nodeStrings b) c (node_sset n) (node_send n) i of
        None \<Rightarrow> None
      | Some k \<Rightarrow> Block_StringAt b (uint k))"




definition Way_StringAt :: "Block \<Rightarrow> nat \<Rightarrow> blockWay \<Rightarrow> int \<Rightarrow> byte list option" where
  "Way_StringAt b c w i =
     (case sliceIndex (wayStrings b) c (way_sset w) (way_send w) i of
        None \<Rightarrow> None
      | Some k \<Rightarrow> Block_StringAt b (uint k))"


definition Relation_StringAt ::
  "Block \<Rightarrow> nat \<Rightarrow> blockRelation \<Rightarrow> int \<Rightarrow> byte list option" where
  "Relation_StringAt b c r i =
     (case sliceIndex (relationStrings b) c (rel_sset r) (rel_send r) i of
        None \<Rightarrow> None
      | Some k \<Rightarrow> Block_StringAt b (uint k))"



section \<open>The block reader (reader.go)\<close>

text \<open>
  The \<open>io.Reader\<close> under the block reader: the bytes it delivers before its first
  error, and that error (\<open>EOF\<close> at the end of a file). \<open>ReadFull\<close> is \<open>io.ReadFull\<close> for a
  buffer of \<open>k\<close> bytes.
\<close>

record ioReader =
  rd_avail :: "byte list"
  rd_final :: go_error

definition ReadFull :: "ioReader \<Rightarrow> nat \<Rightarrow> (go_error + byte list) \<times> ioReader" where
  "ReadFull r k =
     (if k \<le> length (rd_avail r) then
        (Inr (take k (rd_avail r)), r\<lparr>rd_avail := drop k (rd_avail r)\<rparr>)
      else
        (Inl (if rd_avail r \<noteq> [] \<and> rd_final r = EOF then ErrUnexpectedEOF else rd_final r),
         r\<lparr>rd_avail := []\<rparr>))"

record rawBlockReader =
  rr_r :: ioReader
  rr_err :: "go_error option"
  rr_pos :: int64

definition newRawBlockReader :: "ioReader \<Rightarrow> rawBlockReader" where
  "newRawBlockReader r = \<lparr>rr_r = r, rr_err = None, rr_pos = 0\<rparr>"

record rawBlock =
  rb_Type :: "byte list"
  rb_Data :: "byte list"

definition zeroRawBlock :: rawBlock where
  "zeroRawBlock = \<lparr>rb_Type = [], rb_Data = []\<rparr>"

definition headerField :: "Field \<Rightarrow> byte list \<times> uint64 \<Rightarrow> (byte list \<times> uint64) result" where
  "headerField f = (\<lambda>(btype, bsize).
     if Num f = 1 then Ok (Data f, bsize)
     else if Num f = 3 then Ok (btype, Uint64 f)
     else Ok (btype, bsize))"

text \<open>
  \<open>rawBlockReader.ReadBlock\<close>. An outcome carries the returned \<open>(n, block)\<close> and the
  reader as the call leaves it: \<open>Ok\<close> for a nil error, \<open>Error\<close> for a non-nil one.
  \<open>bsize\<close> is \<open>int(f.Uint64())\<close>, a 64-bit \<open>int\<close>: \<open>make([]byte, bsize)\<close> panics
  (\<open>makeslice: len out of range\<close>) when it is negative or above the allocation limit of
  the runtime, \<open>maxAlloc\<close>, which is \<open>2 ^ 48\<close> bytes on the 64-bit platforms amd64 and
  arm64. The header length is a \<open>uint32\<close> and always below the limit. Below the limit
  the memory of the machine is taken to suffice.
\<close>

definition maxAlloc :: int where
  "maxAlloc = 2 ^ 48"

definition raw_ReadBlock ::
  "rawBlockReader \<Rightarrow> ((int \<times> rawBlock) \<times> rawBlockReader) result" where
  "raw_ReadBlock r =
     (case rr_err r of
        Some e \<Rightarrow> Error e ((0, zeroRawBlock), r)
      | None \<Rightarrow>
          (let bpos = rr_pos r in
           case ReadFull (rr_r r) 4 of
             (Inl e, io1) \<Rightarrow> Error e ((0, zeroRawBlock), r\<lparr>rr_r := io1, rr_err := Some e\<rparr>)
           | (Inr buf, io1) \<Rightarrow>
               (let hdrLen = (BigEndian buf :: uint32) in
                case ReadFull io1 (unat hdrLen) of
                  (Inl e, io2) \<Rightarrow>
                    Error e ((0, zeroRawBlock),
                             r\<lparr>rr_r := io2, rr_err := Some e, rr_pos := rr_pos r + 4\<rparr>)
                | (Inr hdr, io2) \<Rightarrow>
                    (let pos2 = rr_pos r + 4 + ucast hdrLen in
                     case ForEachField hdr headerField ([], 0) of
                       Panic \<Rightarrow> Panic
                     | Error e c \<Rightarrow>
                         Error e ((0, zeroRawBlock),
                                  r\<lparr>rr_r := io2, rr_err := Some e, rr_pos := pos2\<rparr>)
                     | Ok (btype, bsize) \<Rightarrow>
                         (if sint bsize < 0 \<or> maxAlloc < sint bsize then Panic
                          else (case ReadFull io2 (unat bsize) of
                                  (Inl e, io3) \<Rightarrow>
                                    Error e ((0, zeroRawBlock),
                                             r\<lparr>rr_r := io3, rr_err := Some e, rr_pos := pos2\<rparr>)
                                | (Inr bdata, io3) \<Rightarrow>
                                    (let pos3 = pos2 + bsize in
                                     Ok ((sint (pos3 - bpos),
                                          \<lparr>rb_Type = btype, rb_Data = bdata\<rparr>),
                                         r\<lparr>rr_r := io3, rr_pos := pos3\<rparr>))))))))"

text \<open>
  \<open>inflate\<close>. What \<open>zlib.NewReader\<close> and \<open>ioutil.ReadAll\<close> give for a byte string is the
  parameter \<open>z\<close>. The closure's variables are \<open>data\<close> and \<open>rawSize\<close>.
\<close>

definition zlibInflateGo ::
  "(byte list \<Rightarrow> go_error + byte list) \<Rightarrow> byte list \<Rightarrow> int64 \<Rightarrow> go_error + byte list" where
  "zlibInflateGo z dat expectedInflatedSize =
     (case z dat of
        Inl e \<Rightarrow> Inl e
      | Inr out \<Rightarrow>
          (if int (length out) \<noteq> sint expectedInflatedSize then Inl SizeMismatch
           else Inr out))"

definition inflateField ::
  "(byte list \<Rightarrow> go_error + byte list) \<Rightarrow> byte list \<Rightarrow> Field \<Rightarrow> byte list \<times> int64
     \<Rightarrow> (byte list \<times> int64) result" where
  "inflateField z bdata f = (\<lambda>(dat, rawSize).
     if Num f = 1 then Ok (bdata, rawSize)
     else if Num f = 2 then Ok (dat, Uint64 f)
     else if Num f = 3 then
       (case zlibInflateGo z (Data f) rawSize of
          Inl e \<Rightarrow> Error e ([], rawSize)
        | Inr out \<Rightarrow> Ok (out, rawSize))
     else Ok (dat, rawSize))"

definition inflate :: "(byte list \<Rightarrow> go_error + byte list) \<Rightarrow> byte list \<Rightarrow> byte list result" where
  "inflate z bdata = mapResult fst (ForEachField bdata (inflateField z bdata) ([], 0))"


text \<open>
  \<open>BlockReader.ReadBlock\<close> and \<open>SkipBlock\<close>: the loops carry the running count \<open>n\<close>
  (the named result of the source, a count of bytes read in this call).
\<close>

record BlockReader =
  br_rr :: rawBlockReader

definition NewBlockReader :: "ioReader \<Rightarrow> BlockReader" where
  "NewBlockReader r = \<lparr>br_rr = newRawBlockReader r\<rparr>"

definition OSMData :: "byte list" where
  "OSMData = map (\<lambda>c. of_nat (of_char c)) ''OSMData''"

function ReadBlock_loop ::
  "(byte list \<Rightarrow> go_error + byte list) \<Rightarrow> BlockReader \<Rightarrow> int
     \<Rightarrow> ((int \<times> Block) \<times> BlockReader) result" where
  "ReadBlock_loop z r n =
     (case raw_ReadBlock (br_rr r) of
        Panic \<Rightarrow> Panic
      | Error e ((nn, rblock), rr') \<Rightarrow> Error e ((0, zeroBlock), r\<lparr>br_rr := rr'\<rparr>)
      | Ok ((nn, rblock), rr') \<Rightarrow>
          (if rb_Type rblock \<noteq> OSMData then ReadBlock_loop z (r\<lparr>br_rr := rr'\<rparr>) (n + nn)
           else (case inflate z (rb_Data rblock) of
                   Panic \<Rightarrow> Panic
                 | Error e d \<Rightarrow> Error e ((0, zeroBlock), r\<lparr>br_rr := rr'\<rparr>)
                 | Ok d \<Rightarrow>
                     (case procBlock Everything d of
                        Panic \<Rightarrow> Panic
                      | Error e b \<Rightarrow> Error e ((0, zeroBlock), r\<lparr>br_rr := rr'\<rparr>)
                      | Ok block \<Rightarrow> Ok ((n + nn, block), r\<lparr>br_rr := rr'\<rparr>)))))"
  by pat_completeness auto
termination
proof (relation "measure (\<lambda>(z, r, n). length (rd_avail (rr_r (br_rr r))))")
  show "wf (measure (\<lambda>(z :: byte list \<Rightarrow> go_error + byte list, r, n :: int).
              length (rd_avail (rr_r (br_rr r)))))"
    by simp
next
  fix z :: "byte list \<Rightarrow> go_error + byte list" and r :: BlockReader and n :: int
    and x1 x y nn rblock rr'
  assume a: "raw_ReadBlock (br_rr r) = Ok x1" "(x, rr') = x1" "(nn, rblock) = x"
  then have ok: "raw_ReadBlock (br_rr r) = Ok (x, rr')" by simp
  have full: "\<And>io k bs io'. ReadFull io k = (Inr bs, io')
      \<Longrightarrow> length (rd_avail io') + k = length (rd_avail io)"
    by (auto simp add: ReadFull_def split: if_splits)
  have e: "rr_err (br_rr r) = None"
    using ok by (cases "rr_err (br_rr r)") (simp_all add: raw_ReadBlock_def)
  obtain a1 io1 where 1: "ReadFull (rr_r (br_rr r)) 4 = (a1, io1)"
    by (cases "ReadFull (rr_r (br_rr r)) 4")
  obtain buf where b1: "a1 = Inr buf"
    using ok e 1 by (cases a1) (simp_all add: raw_ReadBlock_def)
  obtain a2 io2 where 2: "ReadFull io1 (unat (BigEndian buf :: uint32)) = (a2, io2)"
    by (cases "ReadFull io1 (unat (BigEndian buf :: uint32))")
  obtain hdr where b2: "a2 = Inr hdr"
    using ok e 1 b1 2 by (cases a2) (simp_all add: raw_ReadBlock_def)
  obtain btype bsize where 3: "ForEachField hdr headerField ([], 0) = Ok (btype, bsize)"
    using ok e 1 b1 2 b2
    by (cases "ForEachField hdr headerField ([], 0)") (auto simp add: raw_ReadBlock_def)
  have 4: "\<not> (sint bsize < 0 \<or> maxAlloc < sint bsize)"
    using ok e 1 b1 2 b2 3 by (auto simp add: raw_ReadBlock_def)
  obtain a3 io3 where 5: "ReadFull io2 (unat bsize) = (a3, io3)"
    by (cases "ReadFull io2 (unat bsize)")
  obtain bdata where b3: "a3 = Inr bdata"
    using ok e 1 b1 2 b2 3 4 5 by (cases a3) (simp_all add: raw_ReadBlock_def)
  have r': "rr_r rr' = io3"
    using ok e 1 b1 2 b2 3 4 5 b3 by (auto simp add: raw_ReadBlock_def)
  from full [OF 1 [unfolded b1]] full [OF 2 [unfolded b2]] full [OF 5 [unfolded b3]] r'
  have "length (rd_avail (rr_r rr')) < length (rd_avail (rr_r (br_rr r)))"
    by simp
  then show "((z, r\<lparr>br_rr := rr'\<rparr>, n + nn), (z, r, n))
      \<in> measure (\<lambda>(z, r, n). length (rd_avail (rr_r (br_rr r))))"
    by simp
qed

definition BlockReader_ReadBlock ::
  "(byte list \<Rightarrow> go_error + byte list) \<Rightarrow> BlockReader
     \<Rightarrow> ((int \<times> Block) \<times> BlockReader) result" where
  "BlockReader_ReadBlock z r = ReadBlock_loop z r 0"

function SkipBlock_loop :: "BlockReader \<Rightarrow> int \<Rightarrow> (int \<times> BlockReader) result" where
  "SkipBlock_loop r n =
     (case raw_ReadBlock (br_rr r) of
        Panic \<Rightarrow> Panic
      | Error e ((nn, rblock), rr') \<Rightarrow> Error e (0, r\<lparr>br_rr := rr'\<rparr>)
      | Ok ((nn, rblock), rr') \<Rightarrow>
          (if rb_Type rblock \<noteq> OSMData then SkipBlock_loop (r\<lparr>br_rr := rr'\<rparr>) (n + nn)
           else Ok (n + nn, r\<lparr>br_rr := rr'\<rparr>)))"
  by pat_completeness auto
termination
proof (relation "measure (\<lambda>(r, n). length (rd_avail (rr_r (br_rr r))))")
  show "wf (measure (\<lambda>(r, n :: int). length (rd_avail (rr_r (br_rr r)))))"
    by simp
next
  fix r :: BlockReader and n :: int and x1 x y nn rblock rr'
  assume a: "raw_ReadBlock (br_rr r) = Ok x1" "(x, rr') = x1" "(nn, rblock) = x"
  then have ok: "raw_ReadBlock (br_rr r) = Ok (x, rr')" by simp
  have full: "\<And>io k bs io'. ReadFull io k = (Inr bs, io')
      \<Longrightarrow> length (rd_avail io') + k = length (rd_avail io)"
    by (auto simp add: ReadFull_def split: if_splits)
  have e: "rr_err (br_rr r) = None"
    using ok by (cases "rr_err (br_rr r)") (simp_all add: raw_ReadBlock_def)
  obtain a1 io1 where 1: "ReadFull (rr_r (br_rr r)) 4 = (a1, io1)"
    by (cases "ReadFull (rr_r (br_rr r)) 4")
  obtain buf where b1: "a1 = Inr buf"
    using ok e 1 by (cases a1) (simp_all add: raw_ReadBlock_def)
  obtain a2 io2 where 2: "ReadFull io1 (unat (BigEndian buf :: uint32)) = (a2, io2)"
    by (cases "ReadFull io1 (unat (BigEndian buf :: uint32))")
  obtain hdr where b2: "a2 = Inr hdr"
    using ok e 1 b1 2 by (cases a2) (simp_all add: raw_ReadBlock_def)
  obtain btype bsize where 3: "ForEachField hdr headerField ([], 0) = Ok (btype, bsize)"
    using ok e 1 b1 2 b2
    by (cases "ForEachField hdr headerField ([], 0)") (auto simp add: raw_ReadBlock_def)
  have 4: "\<not> (sint bsize < 0 \<or> maxAlloc < sint bsize)"
    using ok e 1 b1 2 b2 3 by (auto simp add: raw_ReadBlock_def)
  obtain a3 io3 where 5: "ReadFull io2 (unat bsize) = (a3, io3)"
    by (cases "ReadFull io2 (unat bsize)")
  obtain bdata where b3: "a3 = Inr bdata"
    using ok e 1 b1 2 b2 3 4 5 by (cases a3) (simp_all add: raw_ReadBlock_def)
  have r': "rr_r rr' = io3"
    using ok e 1 b1 2 b2 3 4 5 b3 by (auto simp add: raw_ReadBlock_def)
  from full [OF 1 [unfolded b1]] full [OF 2 [unfolded b2]] full [OF 5 [unfolded b3]] r'
  have "length (rd_avail (rr_r rr')) < length (rd_avail (rr_r (br_rr r)))"
    by simp
  then show "((r\<lparr>br_rr := rr'\<rparr>, n + nn), (r, n))
      \<in> measure (\<lambda>(r, n). length (rd_avail (rr_r (br_rr r))))"
    by simp
qed

definition BlockReader_SkipBlock :: "BlockReader \<Rightarrow> (int \<times> BlockReader) result" where
  "BlockReader_SkipBlock r = SkipBlock_loop r 0"


section \<open>Planet file names\<close>

text \<open>
  \<open>strings.Split\<close> for a separator of one byte, and \<open>strconv.Atoi\<close> on a 64-bit
  platform (\<open>strconv.ParseInt(s, 10, 64)\<close> is the same function): an optional sign, then
  one or more decimal digits, and the value must fit an int64.
\<close>

fun Split :: "string \<Rightarrow> char \<Rightarrow> string list" where
  "Split [] sep = [[]]"
| "Split (c # cs) sep =
     (if c = sep then [] # Split cs sep
      else (case Split cs sep of [] \<Rightarrow> [[c]] | p # ps \<Rightarrow> (c # p) # ps))"

definition isDigit :: "char \<Rightarrow> bool" where
  "isDigit c = (48 \<le> (of_char c :: nat) \<and> (of_char c :: nat) \<le> 57)"

definition digitsValue :: "string \<Rightarrow> int" where
  "digitsValue ds = foldl (\<lambda>n c. n * 10 + (int (of_char c) - 48)) 0 ds"

definition Atoi :: "string \<Rightarrow> go_error + int" where
  "Atoi s =
     (if s = [] then Inl SyntaxError
      else (let neg = (hd s = CHR ''-'');
                ds = (if hd s = CHR ''-'' \<or> hd s = CHR ''+'' then tl s else s) in
        if ds = [] then Inl SyntaxError
        else if \<not> list_all isDigit ds then Inl SyntaxError
        else (let v = digitsValue ds in
          if neg then (if v > 2 ^ 63 then Inl RangeError else Inr (- v))
          else (if v \<ge> 2 ^ 63 then Inl RangeError else Inr v))))"

definition validBaseName :: "string \<Rightarrow> bool" where
  "validBaseName name =
     (if name = ''planet-latest.osm.pbf'' then True
      else (let parts = Split name CHR ''.'' in
        if length parts \<noteq> 3 \<or> parts ! 1 \<noteq> ''osm'' \<or> parts ! 2 \<noteq> ''pbf'' then False
        else (let parts2 = Split (parts ! 0) CHR ''-'' in
          if length parts2 \<noteq> 2 then False
          else (case Atoi (parts2 ! 1) of
                  Inl e \<Rightarrow> False
                | Inr v \<Rightarrow> (if length (parts2 ! 1) \<noteq> 6 then False else True)))))"

text \<open>
  The planet filename grammar, as the specification gives it: the literal
  \<open>planet-latest.osm.pbf\<close>, or \<open>planet-DDDDDD.osm.pbf\<close> with exactly six decimal digits.
\<close>

definition planetGrammar :: "string \<Rightarrow> bool" where
  "planetGrammar name =
     (name = ''planet-latest.osm.pbf'' \<or>
      (\<exists>ds. length ds = 6 \<and> list_all isDigit ds \<and> name = ''planet-'' @ ds @ ''.osm.pbf''))"

section \<open>The downloader\<close>

text \<open>
  \<open>filepath.Base\<close> on a system whose separator is \<open>/\<close>, and \<open>strings.HasPrefix\<close>.
\<close>

definition Base :: "string \<Rightarrow> string" where
  "Base path =
     (if path = [] then ''.''
      else (let p = rev (dropWhile (\<lambda>c. c = CHR ''/'') (rev path));
                q = rev (takeWhile (\<lambda>c. c \<noteq> CHR ''/'') (rev p)) in
        if q = [] then ''/'' else q))"

definition HasPrefix :: "string \<Rightarrow> string \<Rightarrow> bool" where
  "HasPrefix s pre = (take (length pre) s = pre)"

definition primary :: string where
  "primary = ''https://planet.openstreetmap.org/pbf/''"

text \<open>
  What the downloader sees of the world: the answer to each HTTP request, the file, and
  the shared \<open>dl.err\<close> as it stands each time the lock is taken (another goroutine may
  have called \<open>Stop\<close>). A response body is the list of its reads, each the bytes read
  and the error returned with them; after the list a read gives \<open>(0, EOF)\<close>.
\<close>

record httpResponse =
  StatusCode :: int
  ContentLength :: string
  Body :: "(byte list \<times> go_error option) list"

record dlEnv =
  env_Head :: "string \<Rightarrow> go_error + httpResponse"
  env_OpenFile :: "string \<Rightarrow> go_error + byte list"
  env_Seek :: "go_error option"
  env_NewRequest :: "string \<Rightarrow> go_error option"
  env_Do :: "string \<Rightarrow> int \<times> int \<Rightarrow> go_error + httpResponse"
  env_dlErr :: "nat \<Rightarrow> go_error option"
  env_Write :: "nat \<Rightarrow> go_error option"
  env_Sync :: "go_error option"
  env_Close :: "go_error option"

record dlfut =
  dl_done :: bool
  dl_path :: string
  dl_err :: "go_error option"
  dl_downloaded :: int
  dl_size :: int

text \<open>The state \<open>download\<close> works on: the file's bytes and the shared record.\<close>

record dlState =
  st_file :: "byte list"
  st_dl :: dlfut

text \<open>
  The loop over the body of the GET response; \<open>k\<close> counts the reads, \<open>written\<close> is the
  running total, \<open>sz\<close> the \<open>size\<close> of the source. The result is the error \<open>download\<close> returns from inside the loop, or
  \<open>None\<close> when the loop ends at \<open>break\<close>.
\<close>

fun readBodyLoop ::
  "dlEnv \<Rightarrow> int \<Rightarrow> (byte list \<times> go_error option) list \<Rightarrow> nat \<Rightarrow> int \<Rightarrow> dlState
     \<Rightarrow> go_error option \<times> dlState" where
  "readBodyLoop env sz [] k written st =
     (if written \<noteq> sz then (Some ErrUnexpectedEOF, st) else (None, st))"
| "readBodyLoop env sz ((packet, err) # reads) k written st =
     (let n = int (length packet);
          written1 = (if n > 0 then written + n else written) in
      if n > 0 \<and> written1 > sz then (Some CorruptTooMuchData, st)
      else if n > 0 \<and> env_dlErr env k \<noteq> None then (env_dlErr env k, st)
      else if n > 0 \<and> env_Write env k \<noteq> None then (env_Write env k, st)
      else (let st1 = (if n > 0
                       then st\<lparr>st_file := st_file st @ packet,
                               st_dl := (st_dl st)\<lparr>dl_downloaded := written1\<rparr>\<rparr>
                       else st) in
        case err of
          None \<Rightarrow> readBodyLoop env sz reads (k + 1) written1 st1
        | Some e \<Rightarrow>
            (if e = EOF then
               (if written1 \<noteq> sz then (Some ErrUnexpectedEOF, st1) else (None, st1))
             else (Some e, st1))))"

definition download :: "dlEnv \<Rightarrow> string \<Rightarrow> string \<Rightarrow> dlState \<Rightarrow> go_error option \<times> dlState" where
  "download env url path st =
     (let primaryURL = (if HasPrefix (Base url) ''planet-'' then primary @ Base url else url) in
      case env_Head env primaryURL of
        Inl e \<Rightarrow> (Some e, st)
      | Inr res \<Rightarrow>
          (if StatusCode res \<noteq> 200 then (Some (HttpStatus (StatusCode res)), st)
           else (case Atoi (ContentLength res) of
                   Inl e \<Rightarrow> (Some e, st)
                 | Inr sz \<Rightarrow>
                     (case env_OpenFile env path of
                        Inl e \<Rightarrow> (Some e, st)
                      | Inr contents \<Rightarrow>
                          (let st0 = st\<lparr>st_file := contents\<rparr>;
                               start = int (length contents) in
                           if env_Seek env \<noteq> None then (env_Seek env, st0)
                           else if start > sz then (Some CorruptTooMuchData, st0)
                           else (let st1 = st0\<lparr>st_dl := (st_dl st0)
                                     \<lparr>dl_path := path, dl_size := sz, dl_downloaded := start\<rparr>\<rparr> in
                             if start = sz then (None, st1)
                             else if env_NewRequest env url \<noteq> None then (env_NewRequest env url, st1)
                             else if StatusCode res \<noteq> 206 \<and> StatusCode res \<noteq> 200
                               then (Some (HttpStatus (StatusCode res)), st1)
                             else (case env_Do env url (start, sz - 1) of
                                     Inl e \<Rightarrow> (Some e, st1)
                                   | Inr res2 \<Rightarrow>
                                       (case readBodyLoop env sz (Body res2) 0 start st1 of
                                          (Some e, st2) \<Rightarrow> (Some e, st2)
                                        | (None, st2) \<Rightarrow>
                                            (if env_Sync env \<noteq> None then (env_Sync env, st2)
                                             else if env_Close env \<noteq> None then (env_Close env, st2)
                                             else (None, st2))))))))))"

section \<open>The tailing reader\<close>

text \<open>
  One turn of the loop of \<open>dlReader.Read\<close> sees what \<open>rd.f.Read(p)\<close> returned and, under
  the lock, \<open>dl.err\<close> and \<open>dl.size\<close>. \<open>Read\<close> runs the loop over the turns that happen;
  \<open>Blocked\<close> is a call that is still in \<open>cond.Wait\<close> after the last of them.
\<close>

record readTurn =
  turn_n :: int
  turn_err :: "go_error option"
  turn_dlErr :: "go_error option"
  turn_size :: int

record dlReader =
  rd_read :: int

datatype readResult = Returned int "go_error option" dlReader | Blocked dlReader

fun Read :: "dlReader \<Rightarrow> readTurn list \<Rightarrow> readResult" where
  "Read rd [] = Blocked rd"
| "Read rd (t # ts) =
     (let n = turn_n t;
          rd1 = (if n > 0 then rd\<lparr>rd_read := rd_read rd + n\<rparr> else rd) in
      if turn_dlErr t \<noteq> None then Returned n (turn_dlErr t) rd1
      else if turn_err t = Some EOF then
        (if n > 0 then
           Returned n (if rd_read rd1 < turn_size t then None else Some EOF) rd1
         else if rd_read rd1 > turn_size t then Returned n (Some CorruptTooMuchData) rd1
         else if rd_read rd1 = turn_size t then Returned n (Some EOF) rd1
         else Read rd1 ts)
      else Returned n (turn_err t) rd1)"



section \<open>Proof setup\<close>

text \<open>The recursive equations of the loops are unfolded by hand, one turn at a time.\<close>

declare ForEachPackedUint64.simps [simp del] ForEachPackedInt64.simps [simp del]
  ForEachField.simps [simp del] PutUvarint.simps [simp del]
  ReadBlock_loop.simps [simp del] SkipBlock_loop.simps [simp del]

section \<open>Varints: decoding inverts encoding\<close>

lemma unat_ucast_byte: "unat (ucast (x::uint64) :: byte) = unat x mod 256"
  by (simp add: unsigned_ucast_eq take_bit_eq_mod)

lemma unat_ucast_up: "unat (ucast (b::byte) :: uint64) = unat b"
proof -
  have "unat b < 2 ^ 8" using unsigned_less [of b, where 'a = nat] by simp
  then have "unat b < 2 ^ 64" by simp
  then show ?thesis by (simp add: unsigned_ucast_eq take_bit_nat_eq_self_iff)
qed

lemma low_byte_ucast: "\<not> (0x80 :: uint64) \<le> x \<Longrightarrow> (ucast (ucast x :: byte) :: uint64) = x"
  apply (rule word_unat_eq_iff [THEN iffD2])
  apply (simp only: unat_ucast_up unat_ucast_byte)
  apply (simp add: word_le_nat_alt)
  done

lemma low_byte_small: "\<not> (0x80 :: uint64) \<le> x \<Longrightarrow> (ucast x :: byte) < 0x80"
  by (simp add: word_less_nat_alt word_le_nat_alt unat_ucast_byte)

lemma last_small: "unat (x::uint64) < 2 ^ (64 - 7 * i) \<Longrightarrow> i = 9 \<Longrightarrow> \<not> (ucast x :: byte) > 1"
  by (simp add: word_less_nat_alt unat_ucast_byte)

lemma cont_byte_big: "\<not> ((ucast (x::uint64) :: byte) OR 0x80) < 0x80"
  by (simp add: leD le_word_or1)

lemma cont_byte_low:
  "(ucast (((ucast (x::uint64) :: byte) OR 0x80) AND 0x7f) :: uint64) = take_bit 7 x"
proof -
  have z: "(0x80 :: byte) AND 0x7f = 0" by simp
  have m: "(0x7f :: byte) = mask 7" by (simp add: mask_eq_exp_minus_1)
  have "((ucast x :: byte) OR 0x80) AND 0x7f = (ucast x AND 0x7f) OR (0x80 AND 0x7f)"
    by (rule bit.conj_disj_distrib2)
  also have "\<dots> = (ucast x AND 0x7f)"
    by (simp only: z or.right_neutral)
  also have "\<dots> = take_bit 7 (ucast x :: byte)"
    by (simp only: m take_bit_eq_mask)
  finally have e: "((ucast x :: byte) OR 0x80) AND 0x7f = take_bit 7 (ucast x :: byte)" .
  show ?thesis
    unfolding e
    by (rule bit_word_eqI) (auto simp add: bit_simps)
qed

lemma recombine:
  "(acc :: uint64) OR push_bit s (take_bit 7 x) OR push_bit (s + 7) (drop_bit 7 x)
     = acc OR push_bit s x"
proof (rule bit_word_eqI)
  fix n assume "n < LENGTH(64)"
  have "s + 7 \<le> n \<Longrightarrow> 7 + (n - (s + 7)) = n - s" by arith
  moreover have "\<not> s + 7 \<le> n \<Longrightarrow> s \<le> n \<Longrightarrow> n - s < 7" by arith
  ultimately show "bit (acc OR push_bit s (take_bit 7 x) OR push_bit (s + 7) (drop_bit 7 x)) n
     = bit (acc OR push_bit s x) n"
    by (cases "s + 7 \<le> n") (auto simp add: bit_simps)
qed

lemma drop_small:
  assumes "unat (x::uint64) < 2 ^ (64 - 7 * i)" "i < 9"
  shows "unat (drop_bit 7 x) < 2 ^ (64 - 7 * Suc i)"
proof -
  have "64 - 7 * i = (64 - 7 * Suc i) + 7" using assms(2) by simp
  then have "(2::nat) ^ (64 - 7 * i) = 2 ^ (64 - 7 * Suc i) * 2 ^ 7"
    by (simp only: power_add)
  with assms(1) have "unat x div 2 ^ 7 < 2 ^ (64 - 7 * Suc i)"
    by (simp only: less_mult_imp_div_less)
  then show ?thesis by (simp only: unat_drop_bit_eq) (simp only: drop_bit_eq_div)
qed

lemma Uvarint_loop_Put:
  "unat x < 2 ^ (64 - 7 * i) \<Longrightarrow> i < 10 \<Longrightarrow>
   Uvarint_loop (PutUvarint x @ rest) i acc (7 * i) =
     (acc OR push_bit (7 * i) x, int i + int (length (PutUvarint x)))"
proof (induction x arbitrary: i acc rule: PutUvarint.induct)
  case (1 x)
  show ?case
  proof (cases "x \<ge> 0x80")
    case True
    have i9: "i < 9"
    proof (rule ccontr)
      assume "\<not> i < 9"
      with "1.prems" have "i = 9" by simp
      with "1.prems" have "unat x < 2" by simp
      moreover from True have "128 \<le> unat x" by (simp add: word_le_nat_alt)
      ultimately show False by simp
    qed
    have small: "unat (drop_bit 7 x) < 2 ^ (64 - 7 * Suc i)"
      using "1.prems"(1) i9 by (rule drop_small)
    have s: "7 * i + 7 = 7 * Suc i" by simp
    have IH: "Uvarint_loop (PutUvarint (drop_bit 7 x) @ rest) (Suc i)
        (acc OR push_bit (7 * i) (take_bit 7 x)) (7 * Suc i) =
        ((acc OR push_bit (7 * i) (take_bit 7 x)) OR push_bit (7 * Suc i) (drop_bit 7 x),
         int (Suc i) + int (length (PutUvarint (drop_bit 7 x))))"
      using "1.IH" [OF True small] i9 by simp
    have P: "PutUvarint x = (ucast x OR 0x80) # PutUvarint (drop_bit 7 x)"
      using True by (subst PutUvarint.simps) simp
    show ?thesis
      using i9 IH recombine [of acc "7 * i" x]
      by (simp add: P cont_byte_big cont_byte_low s or.assoc del: mult_Suc_right)
  next
    case False
    have P: "PutUvarint x = [ucast x]"
      using False by (subst PutUvarint.simps) simp
    have "i = 9 \<Longrightarrow> \<not> (ucast x :: byte) > 1"
      using "1.prems"(1) by (rule last_small)
    then show ?thesis
      using "1.prems"(2) False
      by (auto simp add: P low_byte_small low_byte_ucast)
  qed
qed

lemma Uvarint_PutUvarint: "Uvarint (PutUvarint x @ rest) = (x, int (length (PutUvarint x)))"
proof -
  have "unat x < 2 ^ (64 - 7 * 0)" using unsigned_less [of x, where 'a = nat] by simp
  from Uvarint_loop_Put [OF this, of rest 0] show ?thesis by (simp add: Uvarint_def)
qed

lemma PutUvarint_nonempty: "PutUvarint x \<noteq> []"
  by (subst PutUvarint.simps) simp

lemma sign_fill: "signed_drop_bit 63 (x::int64) = (if bit x 63 then - 1 else 0)"
  by (rule bit_word_eqI) (auto simp add: bit_simps not_le)

lemma zigzag_low_bit:
  "(push_bit 1 x XOR signed_drop_bit 63 (x::int64)) AND 1 \<noteq> 0 \<longleftrightarrow> bit x 63"
proof -
  have "(push_bit 1 x XOR signed_drop_bit 63 x) AND 1 \<noteq> 0
      \<longleftrightarrow> odd (push_bit 1 x XOR signed_drop_bit 63 x)"
    by (simp add: and_one_eq odd_iff_mod_2_eq_one)
  also have "\<dots> \<longleftrightarrow> bit x 63"
    by (simp add: even_xor_iff sign_fill)
  finally show ?thesis .
qed

lemma bit_dbl: "bit (x * 2 :: int64) (Suc n) \<longleftrightarrow> n < 63 \<and> bit x n"
  using bit_double_Suc_iff [of x n] by (auto simp add: mult.commute)

lemma zigzag_inverse:
  "(let ux = push_bit 1 x XOR signed_drop_bit 63 (x::int64); y = drop_bit 1 ux in
     if ux AND 1 \<noteq> 0 then NOT y else y) = x"
proof (cases "bit x 63")
  case True
  have "NOT (drop_bit 1 (push_bit 1 x XOR - 1)) = x"
  proof (rule bit_word_eqI)
    fix n assume "n < LENGTH(64)"
    then show "bit (NOT (drop_bit 1 (push_bit 1 x XOR - 1))) n = bit x n"
      using True
      by (cases "n = 63") (auto simp add: bit_simps bit_dbl dest: bit_imp_le_length)
  qed
  moreover have sf: "signed_drop_bit 63 x = - 1" using True by (simp only: sign_fill if_True)
  moreover have "(push_bit 1 x XOR - 1) AND 1 \<noteq> 0"
    using zigzag_low_bit [of x] True unfolding sf by blast
  ultimately show ?thesis by (simp only: Let_def if_True simp_thms)
next
  case False
  have "drop_bit 1 (push_bit 1 x) = x"
  proof (rule bit_word_eqI)
    fix n assume "n < LENGTH(64)"
    then show "bit (drop_bit 1 (push_bit 1 x)) n = bit x n"
      using False
      by (cases "n = 63") (auto simp add: bit_simps bit_dbl dest: bit_imp_le_length)
  qed
  moreover have sf: "signed_drop_bit 63 x = 0" using False by (simp only: sign_fill if_False)
  moreover have "\<not> (push_bit 1 x XOR 0) AND 1 \<noteq> 0"
    using zigzag_low_bit [of x] False unfolding sf by blast
  ultimately show ?thesis by (simp only: Let_def if_False xor.right_neutral simp_thms)
qed

lemma Varint_PutVarint: "Varint (PutVarint x @ rest) = (x, int (length (PutVarint x)))"
  using zigzag_inverse [of x]
  by (simp add: Varint_def PutVarint_def Uvarint_PutUvarint Let_def)

lemma PutVarint_nonempty: "PutVarint x \<noteq> []"
  by (simp add: PutVarint_def PutUvarint_nonempty)

lemma ForEachPackedUint64_Put:
  "ForEachPackedUint64 (PutUvarint x @ rest) iter s =
     (case iter x s of
        Ok s' \<Rightarrow> ForEachPackedUint64 rest iter s'
      | Error e s' \<Rightarrow> Error e s'
      | Panic \<Rightarrow> Panic)"
  using PutUvarint_nonempty [of x]
  by (subst ForEachPackedUint64.simps) (simp add: Uvarint_PutUvarint split: result.splits)

lemma ForEachPackedInt64_Put:
  "ForEachPackedInt64 (PutVarint x @ rest) iter s =
     (case iter x s of
        Ok s' \<Rightarrow> ForEachPackedInt64 rest iter s'
      | Error e s' \<Rightarrow> Error e s'
      | Panic \<Rightarrow> Panic)"
  using PutVarint_nonempty [of x]
  by (subst ForEachPackedInt64.simps) (simp add: Varint_PutVarint split: result.splits)

lemma collect_uint64s:
  "ForEachPackedUint64 (concat (map PutUvarint xs)) (\<lambda>x acc. Ok (acc @ [x])) acc = Ok (acc @ xs)"
proof (induction xs arbitrary: acc)
  case Nil
  show ?case by (subst ForEachPackedUint64.simps) simp
next
  case (Cons x xs)
  show ?case by (simp add: ForEachPackedUint64_Put Cons.IH)
qed

lemma collect_int64s:
  "ForEachPackedInt64 (concat (map PutVarint xs)) (\<lambda>x acc. Ok (acc @ [x])) acc = Ok (acc @ xs)"
proof (induction xs arbitrary: acc)
  case Nil
  show ?case by (subst ForEachPackedInt64.simps) simp
next
  case (Cons x xs)
  show ?case by (simp add: ForEachPackedInt64_Put Cons.IH)
qed

text \<open>
  C8. Decoding the varint encoding of a uint64 gives the value back, decoding the
  zig-zag varint encoding of an int64 gives the value back, and the packed decoders
  read the concatenated encodings of any list of values back as that list.
\<close>

theorem packed_varint_roundtrip:
  "fst (Uvarint (PutUvarint x)) = x \<and> fst (Varint (PutVarint y)) = y \<and>
   packedUint64s (concat (map PutUvarint xs)) = Ok xs \<and>
   packedInt64s (concat (map PutVarint ys)) = Ok ys"
proof -
  have "fst (Uvarint (PutUvarint x)) = x"
    using Uvarint_PutUvarint [of x "[]"] by simp
  moreover have "fst (Varint (PutVarint y)) = y"
    using Varint_PutVarint [of y "[]"] by simp
  moreover have "packedUint64s (concat (map PutUvarint xs)) = Ok xs"
    using collect_uint64s [of xs "[]"] by (simp add: packedUint64s_def)
  moreover have "packedInt64s (concat (map PutVarint ys)) = Ok ys"
    using collect_int64s [of ys "[]"] by (simp add: packedInt64s_def)
  ultimately show ?thesis by simp
qed

theorem packed_varint_roundtrip_witness:
  "fst (Uvarint (PutUvarint 300)) = 300 \<and> fst (Varint (PutVarint (- 1))) = - 1 \<and>
   packedUint64s (concat (map PutUvarint [0, 127, 128, - 1])) = Ok [0, 127, 128, - 1] \<and>
   packedInt64s (concat (map PutVarint [- 1, push_bit 63 1, 0, 150]))
     = Ok [- 1, push_bit 63 1, 0, 150]"
  by (rule packed_varint_roundtrip)

lemma PutVarint_examples:
  "PutVarint (- 1) = [1] \<and>
   PutVarint (push_bit 63 1) = [255, 255, 255, 255, 255, 255, 255, 255, 255, 1] \<and>
   PutUvarint 300 = [172, 2]"
  by code_simp


section \<open>Dense nodes: the keys\_vals terminator\<close>

lemma Uvarint_zero: "Uvarint (0 # rest) = (0, 1)"
  by (simp add: Uvarint_def)

lemma denseKeysVals_zero:
  "denseKeysVals 0 (kv\<lparr>kv_which := False\<rparr>, st) =
     Ok (kv\<lparr>kv_which := False, kv_nodeIdx := kv_nodeIdx kv + 1, kv_first := False\<rparr>, st)"
  by (simp add: denseKeysVals_def)

lemma leading_zero:
  "ForEachPackedUint64 (0 # rest) denseKeysVals (kvStart, st) =
     ForEachPackedUint64 rest denseKeysVals (kvStart\<lparr>kv_nodeIdx := 1\<rparr>, st)"
  by (subst ForEachPackedUint64.simps) (simp add: Uvarint_zero denseKeysVals_def kvStart_def)

text \<open>
  C1. The dense-nodes message with ids \<open>1, 2, 3\<close> (field 1, deltas \<open>1, 1, 1\<close>) and
  \<open>keys_vals = [4, 5, 0, 0, 7, 8, 0]\<close> (field 10) decodes to three nodes: node 0 with
  the window \<open>[0, 2)\<close> of \<open>nodeStrings\<close>, that is the pair \<open>(4, 5)\<close>; node 1 with
  \<open>sset = send\<close>; node 2 with the window \<open>[2, 4)\<close>, the pair \<open>(7, 8)\<close>. In any state, a
  \<open>0\<close> where a key is expected leaves the arrays as they are, moves to the next node and
  clears \<open>first\<close>; a leading \<open>0\<close> leaves node 0 without tags and goes on at node 1.
\<close>

theorem dense_keys_vals_terminator:
  "procDenseNodes Everything [0x0A, 3, 2, 2, 2, 0x52, 7, 4, 5, 0, 0, 7, 8, 0] zeroBlock =
     Ok (zeroBlock\<lparr>nodes :=
           [zeroNode\<lparr>node_id := 1, node_sset := 0, node_send := 2\<rparr>,
            zeroNode\<lparr>node_id := 2, node_sset := 0, node_send := 0\<rparr>,
            zeroNode\<lparr>node_id := 3, node_sset := 2, node_send := 4\<rparr>],
          nodeStrings := [4, 5, 7, 8]\<rparr>) \<and>
   denseKeysVals 0 (kv\<lparr>kv_which := False\<rparr>, st) =
     Ok (kv\<lparr>kv_which := False, kv_nodeIdx := kv_nodeIdx kv + 1, kv_first := False\<rparr>, st) \<and>
   ForEachPackedUint64 (0 # rest) denseKeysVals (kvStart, st) =
     ForEachPackedUint64 rest denseKeysVals (kvStart\<lparr>kv_nodeIdx := 1\<rparr>, st)"
proof (intro conjI)
  show "procDenseNodes Everything [0x0A, 3, 2, 2, 2, 0x52, 7, 4, 5, 0, 0, 7, 8, 0] zeroBlock =
     Ok (zeroBlock\<lparr>nodes :=
           [zeroNode\<lparr>node_id := 1, node_sset := 0, node_send := 2\<rparr>,
            zeroNode\<lparr>node_id := 2, node_sset := 0, node_send := 0\<rparr>,
            zeroNode\<lparr>node_id := 3, node_sset := 2, node_send := 4\<rparr>],
          nodeStrings := [4, 5, 7, 8]\<rparr>)"
    by code_simp
  show "denseKeysVals 0 (kv\<lparr>kv_which := False\<rparr>, st) =
     Ok (kv\<lparr>kv_which := False, kv_nodeIdx := kv_nodeIdx kv + 1, kv_first := False\<rparr>, st)"
    by (rule denseKeysVals_zero)
  show "ForEachPackedUint64 (0 # rest) denseKeysVals (kvStart, st) =
     ForEachPackedUint64 rest denseKeysVals (kvStart\<lparr>kv_nodeIdx := 1\<rparr>, st)"
    by (rule leading_zero)
qed

text \<open>
  The same array with a \<open>0\<close> in front, for four nodes: node 0 keeps \<open>sset = send = 0\<close>
  and the pairs go to nodes 1 and 3.
\<close>

lemma leading_zero_example:
  "procDenseNodes Everything [0x0A, 4, 2, 2, 2, 2, 0x52, 8, 0, 4, 5, 0, 0, 7, 8, 0] zeroBlock =
     Ok (zeroBlock\<lparr>nodes :=
           [zeroNode\<lparr>node_id := 1, node_sset := 0, node_send := 0\<rparr>,
            zeroNode\<lparr>node_id := 2, node_sset := 0, node_send := 2\<rparr>,
            zeroNode\<lparr>node_id := 3, node_sset := 0, node_send := 0\<rparr>,
            zeroNode\<lparr>node_id := 4, node_sset := 2, node_send := 4\<rparr>],
          nodeStrings := [4, 5, 7, 8]\<rparr>)"
  by code_simp

theorem dense_keys_vals_terminator_witness:
  "denseKeysVals 0 (kvStart\<lparr>kv_which := False\<rparr>,
       \<lparr>ds_nodes = replicate 3 zeroNode, ds_nodeStrings = replicate 4 0,
        ds_idAdder = 0, ds_latAdder = 0, ds_lonAdder = 0\<rparr>) =
     Ok (kvStart\<lparr>kv_which := False, kv_nodeIdx := kv_nodeIdx kvStart + 1, kv_first := False\<rparr>,
       \<lparr>ds_nodes = replicate 3 zeroNode, ds_nodeStrings = replicate 4 0,
        ds_idAdder = 0, ds_latAdder = 0, ds_lonAdder = 0\<rparr>) \<and>
   ForEachPackedUint64 [0, 4, 5, 0] denseKeysVals (kvStart,
       \<lparr>ds_nodes = replicate 3 zeroNode, ds_nodeStrings = replicate 4 0,
        ds_idAdder = 0, ds_latAdder = 0, ds_lonAdder = 0\<rparr>) =
     ForEachPackedUint64 [4, 5, 0] denseKeysVals (kvStart\<lparr>kv_nodeIdx := 1\<rparr>,
       \<lparr>ds_nodes = replicate 3 zeroNode, ds_nodeStrings = replicate 4 0,
        ds_idAdder = 0, ds_latAdder = 0, ds_lonAdder = 0\<rparr>)"
  using dense_keys_vals_terminator [of kvStart
      "\<lparr>ds_nodes = replicate 3 zeroNode, ds_nodeStrings = replicate 4 0,
        ds_idAdder = 0, ds_latAdder = 0, ds_lonAdder = 0\<rparr>" "[4, 5, 0]"]
  by simp


section \<open>The block reader reports no bytes with an error\<close>

lemma ReadBlock_loop_error:
  "ReadBlock_loop z r n0 = Error e ((n, b), r') \<Longrightarrow> n = 0 \<and> b = zeroBlock"
proof (induction z r n0 rule: ReadBlock_loop.induct)
  case (1 z r n0)
  from "1.prems" show ?case
    by (subst (asm) ReadBlock_loop.simps)
      (auto split: result.splits prod.splits if_splits dest: "1.IH")
qed

lemma SkipBlock_loop_error:
  "SkipBlock_loop r n0 = Error e (n, r') \<Longrightarrow> n = 0"
proof (induction r n0 rule: SkipBlock_loop.induct)
  case (1 r n0)
  from "1.prems" show ?case
    by (subst (asm) SkipBlock_loop.simps)
      (auto split: result.splits prod.splits if_splits dest: "1.IH")
qed

text \<open>
  C10. When \<open>BlockReader.ReadBlock\<close> returns a non-nil error, the byte count it returns
  is 0 and the block is \<open>Block{}\<close>; when \<open>BlockReader.SkipBlock\<close> returns a non-nil
  error, the byte count it returns is 0.
\<close>

theorem block_reader_error_count:
  "(BlockReader_ReadBlock z r = Error e ((n, b), r') \<longrightarrow> n = 0 \<and> b = zeroBlock) \<and>
   (BlockReader_SkipBlock r = Error e (m, r'') \<longrightarrow> m = 0)"
  by (auto simp add: BlockReader_ReadBlock_def BlockReader_SkipBlock_def
      dest: ReadBlock_loop_error SkipBlock_loop_error)

text \<open>
  A stream that holds one OSMHeader blob (19 bytes) and then ends: both calls read the
  blob, skip it, meet the end of the stream and return \<open>(0, EOF)\<close>; the reader has
  moved on by 19 bytes.
\<close>

definition headerOnlyStream :: "byte list" where
  "headerOnlyStream =
     [0, 0, 0, 13,
      0x0A, 9, 79, 83, 77, 72, 101, 97, 100, 101, 114, 0x18, 2,
      0x0A, 0]"

theorem block_reader_error_count_witness:
  "BlockReader_ReadBlock (\<lambda>d. Inl (ExtErr 0))
       (NewBlockReader \<lparr>rd_avail = headerOnlyStream, rd_final = EOF\<rparr>) =
     Error EOF ((0, zeroBlock),
       \<lparr>br_rr = \<lparr>rr_r = \<lparr>rd_avail = [], rd_final = EOF\<rparr>, rr_err = Some EOF, rr_pos = 19\<rparr>\<rparr>) \<and>
   BlockReader_SkipBlock (NewBlockReader \<lparr>rd_avail = headerOnlyStream, rd_final = EOF\<rparr>) =
     Error EOF (0,
       \<lparr>br_rr = \<lparr>rr_r = \<lparr>rd_avail = [], rd_final = EOF\<rparr>, rr_err = Some EOF, rr_pos = 19\<rparr>\<rparr>)"
proof -
  let ?r0 = "NewBlockReader \<lparr>rd_avail = headerOnlyStream, rd_final = EOF\<rparr>"
  let ?r1 = "\<lparr>br_rr = \<lparr>rr_r = \<lparr>rd_avail = [], rd_final = EOF\<rparr>, rr_err = Some EOF, rr_pos = 19\<rparr>\<rparr>"
  have rb: "BlockReader_ReadBlock (\<lambda>d. Inl (ExtErr 0)) ?r0 = Error EOF ((0, zeroBlock), ?r1)"
    by code_simp
  have sb: "BlockReader_SkipBlock ?r0 = Error EOF (0, ?r1)"
    by code_simp
  from block_reader_error_count [of "\<lambda>d. Inl (ExtErr 0)" ?r0 EOF 0 zeroBlock ?r1 0 ?r1] rb sb
  show ?thesis by simp
qed


section \<open>Reasoning about the field loops\<close>

fun stateOf :: "'s result \<Rightarrow> 's option" where
  "stateOf (Ok s) = Some s"
| "stateOf (Error e s) = Some s"
| "stateOf Panic = None"

lemma stateOf_mapResult: "stateOf (mapResult g r) = map_option g (stateOf r)"
  by (cases r) simp_all

lemma stateOf_dropError: "stateOf (dropError r) = stateOf r"
  by (cases r) simp_all

lemma ForEachField_invariant:
  "(\<And>f s s'. P s \<Longrightarrow> stateOf (iter f s) = Some s' \<Longrightarrow> P s') \<Longrightarrow> P s
    \<Longrightarrow> stateOf (ForEachField bytes iter s) = Some s' \<Longrightarrow> P s'"
proof (induction bytes iter s rule: ForEachField.induct)
  case (1 bytes iter s)
  note step = "1.prems"(1) and Ps = "1.prems"(2) and run = "1.prems"(3)
  show ?case
  proof (cases "readField bytes")
    case (Inl e)
    with run Ps show ?thesis
      by (subst (asm) ForEachField.simps) (simp split: if_splits)
  next
    case (Inr p)
    obtain f rest where p: "p = (f, rest)" by (cases p)
    show ?thesis
    proof (cases "iter f s")
      case (Ok s1)
      have "P s1" by (rule step [OF Ps, of f]) (simp add: Ok)
      moreover have "stateOf (ForEachField rest iter s1) = Some s'"
        using run Inr p Ok by (subst (asm) ForEachField.simps) simp
      ultimately show ?thesis
        using "1.IH" [OF Inr p [symmetric] Ok step] by simp
    next
      case (Error e s1)
      have "P s1" by (rule step [OF Ps, of f]) (simp add: Error)
      moreover have "s' = s1"
        using run Inr p Error by (subst (asm) ForEachField.simps) simp
      ultimately show ?thesis by simp
    next
      case Panic
      then show ?thesis
        using run Inr p by (subst (asm) ForEachField.simps) simp
    qed
  qed
qed

lemma ForEachPackedUint64_invariant:
  "(\<And>x s s'. P s \<Longrightarrow> stateOf (iter x s) = Some s' \<Longrightarrow> P s') \<Longrightarrow> P s
    \<Longrightarrow> stateOf (ForEachPackedUint64 dat iter s) = Some s' \<Longrightarrow> P s'"
proof (induction dat iter s rule: ForEachPackedUint64.induct)
  case (1 dat iter s)
  note step = "1.prems"(1) and Ps = "1.prems"(2) and run = "1.prems"(3)
  show ?case
  proof (cases "dat = []")
    case True
    with run Ps show ?thesis
      by (subst (asm) ForEachPackedUint64.simps) simp
  next
    case False
    obtain x n where u: "Uvarint dat = (x, n)" by (cases "Uvarint dat")
    show ?thesis
    proof (cases "n \<le> 0")
      case True
      with run Ps False u show ?thesis
        by (subst (asm) ForEachPackedUint64.simps) (simp split: if_splits)
    next
      case n: False
      show ?thesis
      proof (cases "iter x s")
        case (Ok s1)
        have "P s1" by (rule step [OF Ps, of x]) (simp add: Ok)
        moreover have "stateOf (ForEachPackedUint64 (drop (nat n) dat) iter s1) = Some s'"
          using run False u n Ok by (subst (asm) ForEachPackedUint64.simps) simp
        ultimately show ?thesis
          using "1.IH" [OF False refl u [symmetric] n Ok step] by simp
      next
        case (Error e s1)
        have "P s1" by (rule step [OF Ps, of x]) (simp add: Error)
        moreover have "s' = s1"
          using run False u n Error by (subst (asm) ForEachPackedUint64.simps) simp
        ultimately show ?thesis by simp
      next
        case Panic
        then show ?thesis
          using run False u n by (subst (asm) ForEachPackedUint64.simps) simp
      qed
    qed
  qed
qed

lemma ForEachPackedInt64_invariant:
  "(\<And>x s s'. P s \<Longrightarrow> stateOf (iter x s) = Some s' \<Longrightarrow> P s') \<Longrightarrow> P s
    \<Longrightarrow> stateOf (ForEachPackedInt64 dat iter s) = Some s' \<Longrightarrow> P s'"
proof (induction dat iter s rule: ForEachPackedInt64.induct)
  case (1 dat iter s)
  note step = "1.prems"(1) and Ps = "1.prems"(2) and run = "1.prems"(3)
  show ?case
  proof (cases "dat = []")
    case True
    with run Ps show ?thesis
      by (subst (asm) ForEachPackedInt64.simps) simp
  next
    case False
    obtain x n where u: "Varint dat = (x, n)" by (cases "Varint dat")
    show ?thesis
    proof (cases "n \<le> 0")
      case True
      with run Ps False u show ?thesis
        by (subst (asm) ForEachPackedInt64.simps) (simp split: if_splits)
    next
      case n: False
      show ?thesis
      proof (cases "iter x s")
        case (Ok s1)
        have "P s1" by (rule step [OF Ps, of x]) (simp add: Ok)
        moreover have "stateOf (ForEachPackedInt64 (drop (nat n) dat) iter s1) = Some s'"
          using run False u n Ok by (subst (asm) ForEachPackedInt64.simps) simp
        ultimately show ?thesis
          using "1.IH" [OF False refl u [symmetric] n Ok step] by simp
      next
        case (Error e s1)
        have "P s1" by (rule step [OF Ps, of x]) (simp add: Error)
        moreover have "s' = s1"
          using run False u n Error by (subst (asm) ForEachPackedInt64.simps) simp
        ultimately show ?thesis by simp
      next
        case Panic
        then show ?thesis
          using run False u n by (subst (asm) ForEachPackedInt64.simps) simp
      qed
    qed
  qed
qed


text \<open>
  The fields of a byte string, as \<open>ForEachField\<close> meets them, and the values of a packed
  array; a loop over the bytes is a fold over that list.
\<close>

definition fieldsOf :: "byte list \<Rightarrow> Field list result" where
  "fieldsOf bytes = ForEachField bytes (\<lambda>f acc. Ok (acc @ [f])) []"

fun foldResult :: "('a \<Rightarrow> 's \<Rightarrow> 's result) \<Rightarrow> 'a list \<Rightarrow> 's \<Rightarrow> 's result" where
  "foldResult iter [] s = Ok s"
| "foldResult iter (x # xs) s =
     (case iter x s of
        Ok s' \<Rightarrow> foldResult iter xs s'
      | Error e s' \<Rightarrow> Error e s'
      | Panic \<Rightarrow> Panic)"

text \<open>A loop that met the items \<open>r\<close> before it ended or failed, run with \<open>iter\<close>.\<close>

fun replay :: "('a \<Rightarrow> 's \<Rightarrow> 's result) \<Rightarrow> 'a list result \<Rightarrow> 's \<Rightarrow> 's result" where
  "replay iter (Ok xs) s = foldResult iter xs s"
| "replay iter (Error e xs) s =
     (case foldResult iter xs s of Ok s' \<Rightarrow> Error e s' | Error e' s' \<Rightarrow> Error e' s' | Panic \<Rightarrow> Panic)"
| "replay iter Panic s = Panic"

lemma readField_shrinks:
  assumes "readField bytes = Inr (f, rest)"
  shows "length rest < length bytes"
proof -
  have body: "\<And>a b c n p g q. readBody a b c n p = Inr (g, q) \<Longrightarrow> length q \<le> length p"
    by (auto simp add: readBody_def Let_def split: if_splits)
  have shrink: "\<And>(n::int) k. \<not> n \<le> 0 \<Longrightarrow> k \<le> length bytes - nat n \<Longrightarrow> bytes \<noteq> []
      \<Longrightarrow> k < length bytes"
    by (cases bytes) auto
  from assms show ?thesis
    by (auto simp add: readField_def Let_def split: if_splits prod.splits dest!: body
        intro: shrink)
qed

lemma collect_fields_acc:
  "ForEachField bytes (\<lambda>f acc. Ok (acc @ [f])) acc =
     mapResult ((@) acc) (ForEachField bytes (\<lambda>f acc. Ok (acc @ [f])) [])"
proof (induction "length bytes" arbitrary: bytes acc rule: less_induct)
  case less
  show ?case
  proof (cases "readField bytes")
    case (Inl e)
    have "ForEachField bytes (\<lambda>f acc. Ok (acc @ [f])) acc = (if e = EOF then Ok acc else Error e acc)"
      using Inl by (subst ForEachField.simps) simp
    moreover have "ForEachField bytes (\<lambda>f acc. Ok (acc @ [f])) [] = (if e = EOF then Ok [] else Error e [])"
      using Inl by (subst ForEachField.simps) simp
    ultimately show ?thesis by simp
  next
    case (Inr p)
    obtain f rest where p: "p = (f, rest)" by (cases p)
    have sh: "length rest < length bytes" using Inr p by (simp add: readField_shrinks)
    have "ForEachField bytes (\<lambda>f acc. Ok (acc @ [f])) acc
        = ForEachField rest (\<lambda>f acc. Ok (acc @ [f])) (acc @ [f])"
      using Inr p by (subst ForEachField.simps) simp
    also have "\<dots> = mapResult ((@) (acc @ [f])) (ForEachField rest (\<lambda>f acc. Ok (acc @ [f])) [])"
      by (rule less [OF sh])
    also have "\<dots> = mapResult ((@) acc) (mapResult ((@) [f]) (ForEachField rest (\<lambda>f acc. Ok (acc @ [f])) []))"
      by (cases "ForEachField rest (\<lambda>f acc. Ok (acc @ [f])) []") simp_all
    also have "\<dots> = mapResult ((@) acc) (ForEachField rest (\<lambda>f acc. Ok (acc @ [f])) [f])"
      using less [OF sh, of "[f]"] by simp
    also have "\<dots> = mapResult ((@) acc) (ForEachField bytes (\<lambda>f acc. Ok (acc @ [f])) [])"
      using Inr p by (subst (2) ForEachField.simps) simp
    finally show ?thesis .
  qed
qed

lemma fieldsOf_step:
  "fieldsOf bytes =
     (case readField bytes of
        Inl e \<Rightarrow> (if e = EOF then Ok [] else Error e [])
      | Inr (f, rest) \<Rightarrow> mapResult ((#) f) (fieldsOf rest))"
proof (cases "readField bytes")
  case (Inl e)
  then show ?thesis unfolding fieldsOf_def by (subst ForEachField.simps) simp
next
  case (Inr p)
  obtain f rest where p: "p = (f, rest)" by (cases p)
  have "fieldsOf bytes = ForEachField rest (\<lambda>f acc. Ok (acc @ [f])) [f]"
    unfolding fieldsOf_def using Inr p by (subst ForEachField.simps) simp
  also have "\<dots> = mapResult ((@) [f]) (fieldsOf rest)"
    unfolding fieldsOf_def by (rule collect_fields_acc)
  also have "\<dots> = mapResult ((#) f) (fieldsOf rest)"
    by (cases "fieldsOf rest") simp_all
  finally show ?thesis using Inr p by simp
qed

lemma fieldsOf_no_panic: "fieldsOf bytes \<noteq> Panic"
proof (induction "length bytes" arbitrary: bytes rule: less_induct)
  case less
  show ?case
  proof (cases "readField bytes")
    case (Inl e)
    then show ?thesis by (subst fieldsOf_step) simp
  next
    case (Inr p)
    obtain f rest where p: "p = (f, rest)" by (cases p)
    have sh: "length rest < length bytes" using Inr p by (simp add: readField_shrinks)
    have "fieldsOf rest \<noteq> Panic" by (rule less [OF sh])
    then show ?thesis
      using Inr p by (subst fieldsOf_step) (cases "fieldsOf rest", simp_all)
  qed
qed

lemma ForEachField_replay: "ForEachField bytes iter s = replay iter (fieldsOf bytes) s"
proof (induction "length bytes" arbitrary: bytes s rule: less_induct)
  case less
  show ?case
  proof (cases "readField bytes")
    case (Inl e)
    have "ForEachField bytes iter s = (if e = EOF then Ok s else Error e s)"
      using Inl by (subst ForEachField.simps) simp
    moreover have "fieldsOf bytes = (if e = EOF then Ok [] else Error e [])"
      using Inl by (subst fieldsOf_step) simp
    ultimately show ?thesis by simp
  next
    case (Inr p)
    obtain f rest where p: "p = (f, rest)" by (cases p)
    have sh: "length rest < length bytes" using Inr p by (simp add: readField_shrinks)
    have fo: "fieldsOf bytes = mapResult ((#) f) (fieldsOf rest)"
      using Inr p by (subst fieldsOf_step) simp
    show ?thesis
    proof (cases "iter f s")
      case (Ok s1)
      have "ForEachField bytes iter s = ForEachField rest iter s1"
        using Inr p Ok by (subst ForEachField.simps) simp
      also have "\<dots> = replay iter (fieldsOf rest) s1" by (rule less [OF sh])
      also have "\<dots> = replay iter (fieldsOf bytes) s"
        unfolding fo using Ok by (cases "fieldsOf rest") simp_all
      finally show ?thesis .
    next
      case (Error e s1)
      have "ForEachField bytes iter s = Error e s1"
        using Inr p Error by (subst ForEachField.simps) simp
      moreover have "replay iter (fieldsOf bytes) s = Error e s1"
        unfolding fo using Error fieldsOf_no_panic [of rest]
        by (cases "fieldsOf rest") simp_all
      ultimately show ?thesis by simp
    next
      case Panic
      have "ForEachField bytes iter s = Panic"
        using Inr p Panic by (subst ForEachField.simps) simp
      moreover have "replay iter (fieldsOf bytes) s = Panic"
        unfolding fo using Panic by (cases "fieldsOf rest") simp_all
      ultimately show ?thesis by simp
    qed
  qed
qed


lemma collect_uint64s_acc:
  "ForEachPackedUint64 dat (\<lambda>x acc. Ok (acc @ [x])) acc =
     mapResult ((@) acc) (ForEachPackedUint64 dat (\<lambda>x acc. Ok (acc @ [x])) [])"
proof (induction "length dat" arbitrary: dat acc rule: less_induct)
  case less
  show ?case
  proof (cases "dat = []")
    case True
    then show ?thesis by (simp add: ForEachPackedUint64.simps [of "[]"])
  next
    case False
    obtain x n where u: "Uvarint dat = (x, n)" by (cases "Uvarint dat")
    show ?thesis
    proof (cases "n \<le> 0")
      case True
      have "\<And>a. ForEachPackedUint64 dat (\<lambda>x acc. Ok (acc @ [x])) a =
          (if n = 0 then Error BufferTooSmall a else Error ValueLargerThan64 a)"
        using False u True by (subst ForEachPackedUint64.simps) simp
      then show ?thesis by simp
    next
      case n: False
      have sh: "length (drop (nat n) dat) < length dat" using False n by simp
      have st: "\<And>a. ForEachPackedUint64 dat (\<lambda>x acc. Ok (acc @ [x])) a =
          ForEachPackedUint64 (drop (nat n) dat) (\<lambda>x acc. Ok (acc @ [x])) (a @ [x])"
        using False u n by (subst ForEachPackedUint64.simps) simp
      have "ForEachPackedUint64 dat (\<lambda>x acc. Ok (acc @ [x])) acc =
          mapResult ((@) (acc @ [x])) (ForEachPackedUint64 (drop (nat n) dat) (\<lambda>x acc. Ok (acc @ [x])) [])"
        unfolding st by (rule less [OF sh])
      also have "\<dots> = mapResult ((@) acc) (mapResult ((@) [x])
          (ForEachPackedUint64 (drop (nat n) dat) (\<lambda>x acc. Ok (acc @ [x])) []))"
        by (cases "ForEachPackedUint64 (drop (nat n) dat) (\<lambda>x acc. Ok (acc @ [x])) []") simp_all
      also have "\<dots> = mapResult ((@) acc) (ForEachPackedUint64 dat (\<lambda>x acc. Ok (acc @ [x])) [])"
        using less [OF sh, of "[x]"] st [of "[]"] by simp
      finally show ?thesis .
    qed
  qed
qed

lemma packedUint64s_step:
  "packedUint64s dat =
     (if dat = [] then Ok []
      else (let (x, n) = Uvarint dat in
        if n \<le> 0 then (if n = 0 then Error BufferTooSmall [] else Error ValueLargerThan64 [])
        else mapResult ((#) x) (packedUint64s (drop (nat n) dat))))"
proof (cases "dat = []")
  case True
  then show ?thesis by (simp add: packedUint64s_def ForEachPackedUint64.simps [of "[]"])
next
  case False
  obtain x n where u: "Uvarint dat = (x, n)" by (cases "Uvarint dat")
  show ?thesis
  proof (cases "n \<le> 0")
    case True
    with False u show ?thesis
      unfolding packedUint64s_def by (subst ForEachPackedUint64.simps) simp
  next
    case n: False
    have "packedUint64s dat = ForEachPackedUint64 (drop (nat n) dat) (\<lambda>x acc. Ok (acc @ [x])) [x]"
      unfolding packedUint64s_def using False u n by (subst ForEachPackedUint64.simps) simp
    also have "\<dots> = mapResult ((@) [x]) (packedUint64s (drop (nat n) dat))"
      unfolding packedUint64s_def by (rule collect_uint64s_acc)
    also have "\<dots> = mapResult ((#) x) (packedUint64s (drop (nat n) dat))"
      by (cases "packedUint64s (drop (nat n) dat)") simp_all
    finally show ?thesis using False u n by simp
  qed
qed

lemma packedUint64s_no_panic: "packedUint64s dat \<noteq> Panic"
proof (induction "length dat" arbitrary: dat rule: less_induct)
  case less
  show ?case
  proof (cases "dat = []")
    case True
    then show ?thesis by (subst packedUint64s_step) simp
  next
    case False
    obtain x n where u: "Uvarint dat = (x, n)" by (cases "Uvarint dat")
    show ?thesis
    proof (cases "n \<le> 0")
      case True
      with False u show ?thesis by (subst packedUint64s_step) simp
    next
      case n: False
      have sh: "length (drop (nat n) dat) < length dat" using False n by simp
      have "packedUint64s (drop (nat n) dat) \<noteq> Panic" by (rule less [OF sh])
      then show ?thesis
        using False u n
        by (subst packedUint64s_step) (cases "packedUint64s (drop (nat n) dat)", simp_all)
    qed
  qed
qed

lemma ForEachPackedUint64_replay:
  "ForEachPackedUint64 dat iter s = replay iter (packedUint64s dat) s"
proof (induction "length dat" arbitrary: dat s rule: less_induct)
  case less
  show ?case
  proof (cases "dat = []")
    case True
    then show ?thesis
      by (subst packedUint64s_step) (simp add: ForEachPackedUint64.simps [of "[]"])
  next
    case False
    obtain x n where u: "Uvarint dat = (x, n)" by (cases "Uvarint dat")
    show ?thesis
    proof (cases "n \<le> 0")
      case True
      have "ForEachPackedUint64 dat iter s =
          (if n = 0 then Error BufferTooSmall s else Error ValueLargerThan64 s)"
        using False u True by (subst ForEachPackedUint64.simps) simp
      moreover have "packedUint64s dat =
          (if n = 0 then Error BufferTooSmall [] else Error ValueLargerThan64 [])"
        using False u True by (subst packedUint64s_step) simp
      ultimately show ?thesis by simp
    next
      case n: False
      have sh: "length (drop (nat n) dat) < length dat" using False n by simp
      have po: "packedUint64s dat = mapResult ((#) x) (packedUint64s (drop (nat n) dat))"
        using False u n by (subst packedUint64s_step) simp
      show ?thesis
      proof (cases "iter x s")
        case (Ok s1)
        have "ForEachPackedUint64 dat iter s = ForEachPackedUint64 (drop (nat n) dat) iter s1"
          using False u n Ok by (subst ForEachPackedUint64.simps) simp
        also have "\<dots> = replay iter (packedUint64s (drop (nat n) dat)) s1"
          by (rule less [OF sh])
        also have "\<dots> = replay iter (packedUint64s dat) s"
          unfolding po using Ok by (cases "packedUint64s (drop (nat n) dat)") simp_all
        finally show ?thesis .
      next
        case (Error e s1)
        have "ForEachPackedUint64 dat iter s = Error e s1"
          using False u n Error by (subst ForEachPackedUint64.simps) simp
        moreover have "replay iter (packedUint64s dat) s = Error e s1"
          unfolding po using Error packedUint64s_no_panic [of "drop (nat n) dat"]
          by (cases "packedUint64s (drop (nat n) dat)") simp_all
        ultimately show ?thesis by simp
      next
        case Panic
        have "ForEachPackedUint64 dat iter s = Panic"
          using False u n Panic by (subst ForEachPackedUint64.simps) simp
        moreover have "replay iter (packedUint64s dat) s = Panic"
          unfolding po using Panic by (cases "packedUint64s (drop (nat n) dat)") simp_all
        ultimately show ?thesis by simp
      qed
    qed
  qed
qed


section \<open>The inflater and the unsupported compression fields\<close>

lemma inflate_skips:
  "\<forall>f \<in> set fs. Num f \<noteq> 1 \<and> Num f \<noteq> 3 \<Longrightarrow>
   \<exists>r'. foldResult (inflateField z bdata) fs ([], r) = Ok ([], r')"
proof (induction fs arbitrary: r)
  case Nil
  show ?case by simp
next
  case (Cons f fs)
  then show ?case by (cases "Num f = 2") (simp_all add: inflateField_def)
qed

text \<open>
  C4, as the code has it. A Blob payload that parses into fields none of which is
  \<open>raw\<close> (\<open>#1\<close>) or \<open>zlib_data\<close> (\<open>#3\<close>), so also one whose only data field is
  \<open>lzma_data\<close> (\<open>#4\<close>) or the bzip2 field (\<open>#5\<close>), is inflated without an error, to no
  data at all: the inflater returns \<open>(nil, nil)\<close>.
\<close>

theorem inflate_unsupported_is_empty:
  assumes "fieldsOf bdata = Ok fs" and "\<forall>f \<in> set fs. Num f \<noteq> 1 \<and> Num f \<noteq> 3"
  shows "inflate z bdata = Ok []"
proof -
  from inflate_skips [OF assms(2)] obtain r' where
    "foldResult (inflateField z bdata) fs ([], 0) = Ok ([], r')" by blast
  then show ?thesis
    by (simp add: inflate_def ForEachField_replay assms(1))
qed

theorem inflate_unsupported_is_empty_witness:
  "fieldsOf [0x22, 2, 0xAA, 0xBB] = Ok [\<lparr>f_num = 4, f_typ = 2, f_data = [0xAA, 0xBB]\<rparr>] \<and>
   inflate (\<lambda>d. Inl (ExtErr 0)) [0x22, 2, 0xAA, 0xBB] = Ok []"
proof -
  have p: "fieldsOf [0x22, 2, 0xAA, 0xBB] = Ok [\<lparr>f_num = 4, f_typ = 2, f_data = [0xAA, 0xBB]\<rparr>]"
    by code_simp
  have q: "\<forall>f \<in> set [\<lparr>f_num = 4, f_typ = 2, f_data = [0xAA, 0xBB :: byte]\<rparr>]. Num f \<noteq> 1 \<and> Num f \<noteq> 3"
    by (simp add: Num_def)
  from inflate_unsupported_is_empty [OF p q, of "\<lambda>d. Inl (ExtErr 0)"] p show ?thesis by simp
qed

text \<open>
  The claim fails on a payload that holds only an \<open>lzma_data\<close> field, and on one that
  holds only the bzip2 field: the inflater returns no error.
\<close>

theorem inflate_lzma_counterexample:
  "inflate (\<lambda>d. Inl (ExtErr 0)) [0x22, 2, 0xAA, 0xBB] = Ok [] \<and>
   inflate (\<lambda>d. Inl (ExtErr 0)) [0x2A, 1, 0x42] = Ok []"
  by code_simp


section \<open>Planet file names\<close>

lemma Split_nonempty: "Split s c \<noteq> []"
  by (induction s) (auto split: list.splits)

lemma Split_no_sep: "c \<notin> set a \<Longrightarrow> Split a c = [a]"
  by (induction a) auto

lemma Split_append: "c \<notin> set a \<Longrightarrow> Split (a @ c # rest) c = a # Split rest c"
  by (induction a) auto

lemma Split_cases:
  "Split s c = p # ps \<Longrightarrow> c \<notin> set p \<and> (if ps = [] then s = p else \<exists>rest. s = p @ c # rest \<and> Split rest c = ps)"
proof (induction s arbitrary: p ps)
  case Nil
  then show ?case by simp
next
  case (Cons x xs)
  show ?case
  proof (cases "x = c")
    case True
    with Cons.prems have "p = []" "ps = Split xs c" by simp_all
    then show ?thesis using True Split_nonempty [of xs c] by simp
  next
    case False
    obtain q qs where q: "Split xs c = q # qs"
      using Split_nonempty [of xs c] by (cases "Split xs c") auto
    with Cons.prems False have p: "p = x # q" "ps = qs" by simp_all
    from Cons.IH [OF q] p False show ?thesis by auto
  qed
qed

lemma Split3:
  "Split s c = [a, b, d] \<longleftrightarrow>
     s = a @ c # b @ c # d \<and> c \<notin> set a \<and> c \<notin> set b \<and> c \<notin> set d"
proof
  assume s: "Split s c = [a, b, d]"
  from Split_cases [OF s] obtain r1 where 1: "c \<notin> set a" "s = a @ c # r1" "Split r1 c = [b, d]"
    by auto
  from Split_cases [OF 1(3)] obtain r2 where 2: "c \<notin> set b" "r1 = b @ c # r2" "Split r2 c = [d]"
    by auto
  from Split_cases [OF 2(3)] have 3: "c \<notin> set d" "r2 = d" by auto
  from 1 2 3 show "s = a @ c # b @ c # d \<and> c \<notin> set a \<and> c \<notin> set b \<and> c \<notin> set d" by simp
next
  assume "s = a @ c # b @ c # d \<and> c \<notin> set a \<and> c \<notin> set b \<and> c \<notin> set d"
  then show "Split s c = [a, b, d]" by (simp add: Split_append Split_no_sep)
qed

lemma Split2:
  "Split s c = [a, b] \<longleftrightarrow> s = a @ c # b \<and> c \<notin> set a \<and> c \<notin> set b"
proof
  assume s: "Split s c = [a, b]"
  from Split_cases [OF s] obtain r1 where 1: "c \<notin> set a" "s = a @ c # r1" "Split r1 c = [b]"
    by auto
  from Split_cases [OF 1(3)] have 2: "c \<notin> set b" "r1 = b" by auto
  from 1 2 show "s = a @ c # b \<and> c \<notin> set a \<and> c \<notin> set b" by simp
next
  assume "s = a @ c # b \<and> c \<notin> set a \<and> c \<notin> set b"
  then show "Split s c = [a, b]" by (simp add: Split_append Split_no_sep)
qed

lemma length3: "length xs = 3 \<longleftrightarrow> (\<exists>a b d. xs = [a, b, d])"
  by (cases xs; simp; cases "tl xs"; simp; cases "tl (tl xs)"; auto)

lemma length2: "length xs = 2 \<longleftrightarrow> (\<exists>a b. xs = [a, b])"
  by (cases xs; simp; cases "tl xs"; auto)

lemma digits_bound:
  "list_all isDigit ds \<Longrightarrow> 0 \<le> n \<Longrightarrow>
   0 \<le> foldl (\<lambda>n c. n * 10 + (int (of_char c) - 48)) n ds \<and>
   foldl (\<lambda>n c. n * 10 + (int (of_char c) - 48)) n ds < (n + 1) * 10 ^ length ds"
proof (induction ds arbitrary: n)
  case Nil
  then show ?case by simp
next
  case (Cons c ds)
  let ?m = "n * 10 + (int (of_char c) - 48)"
  from Cons.prems have c: "48 \<le> (of_char c :: nat)" "(of_char c :: nat) \<le> 57"
    by (simp_all add: isDigit_def)
  then have m: "0 \<le> ?m" "?m + 1 \<le> (n + 1) * 10" using Cons.prems(2) by simp_all
  from Cons.prems have "list_all isDigit ds" by simp
  from Cons.IH [OF this m(1)] have
    ih: "0 \<le> foldl (\<lambda>n c. n * 10 + (int (of_char c) - 48)) ?m ds"
      "foldl (\<lambda>n c. n * 10 + (int (of_char c) - 48)) ?m ds < (?m + 1) * 10 ^ length ds"
    by simp_all
  have "(?m + 1) * 10 ^ length ds \<le> ((n + 1) * 10) * 10 ^ length ds"
    using m(2) by (rule mult_right_mono) simp
  with ih(2) have "foldl (\<lambda>n c. n * 10 + (int (of_char c) - 48)) ?m ds
      < ((n + 1) * 10) * 10 ^ length ds"
    by (rule less_le_trans)
  moreover have "((n + 1) * 10) * 10 ^ length ds = (n + 1) * 10 ^ length (c # ds)" by simp
  ultimately have "foldl (\<lambda>n c. n * 10 + (int (of_char c) - 48)) ?m ds
      < (n + 1) * 10 ^ length (c # ds)"
    by (simp only:)
  with ih(1) show ?case by (simp only: foldl_Cons simp_thms)
qed

lemma digitsValue_small:
  assumes "list_all isDigit ds" "length ds \<le> 6"
  shows "0 \<le> digitsValue ds \<and> digitsValue ds < 2 ^ 63"
proof -
  from digits_bound [OF assms(1), of 0] have
    b: "0 \<le> digitsValue ds" "digitsValue ds < 10 ^ length ds"
    by (simp_all add: digitsValue_def)
  have "(10::int) ^ length ds \<le> 10 ^ 6" using assms(2) by (rule power_increasing) simp
  with b show ?thesis by simp
qed

text \<open>What \<open>Atoi\<close> accepts among the strings of six bytes.\<close>

definition sixChars :: "string \<Rightarrow> bool" where
  "sixChars d = (length d = 6 \<and>
     (list_all isDigit d \<or> ((hd d = CHR ''+'' \<or> hd d = CHR ''-'') \<and> list_all isDigit (tl d))))"

lemma Atoi_six:
  "length d = 6 \<Longrightarrow> (\<exists>v. Atoi d = Inr v) \<longleftrightarrow> sixChars d"
proof -
  assume l: "length d = 6"
  then obtain c cs where d: "d = c # cs" and cs: "length cs = 5" by (cases d) auto
  have nd: "\<not> isDigit CHR ''+''" "\<not> isDigit CHR ''-''" by (simp_all add: isDigit_def)
  show ?thesis
  proof (cases "c = CHR ''-'' \<or> c = CHR ''+''")
    case True
    show ?thesis
    proof (cases "list_all isDigit cs")
      case digits: True
      from digitsValue_small [OF digits] cs have "0 \<le> digitsValue cs \<and> digitsValue cs < 2 ^ 63"
        by simp
      then show ?thesis using True digits d l cs
        by (auto simp add: Atoi_def sixChars_def Let_def)
    next
      case False
      then show ?thesis using True d l nd
        by (auto simp add: Atoi_def sixChars_def Let_def)
    qed
  next
    case False
    show ?thesis
    proof (cases "list_all isDigit d")
      case digits: True
      from digitsValue_small [OF digits] l have "0 \<le> digitsValue d \<and> digitsValue d < 2 ^ 63"
        by simp
      then show ?thesis using False digits d l
        by (auto simp add: Atoi_def sixChars_def Let_def)
    next
      case nod: False
      then show ?thesis using False d l
        by (auto simp add: Atoi_def sixChars_def Let_def)
    qed
  qed
qed


lemma digits_no_punct:
  "list_all isDigit xs \<Longrightarrow> CHR ''.'' \<notin> set xs \<and> CHR ''-'' \<notin> set xs"
  by (induction xs) (auto simp add: isDigit_def)

lemma sixChars_no_punct:
  assumes "length d = 6" "list_all isDigit d \<or> (hd d = CHR ''+'' \<and> list_all isDigit (tl d))"
  shows "CHR ''.'' \<notin> set d \<and> CHR ''-'' \<notin> set d"
proof -
  from assms(1) obtain c cs where d: "d = c # cs" by (cases d) auto
  from assms(2) show ?thesis
  proof
    assume "list_all isDigit d"
    then show ?thesis by (rule digits_no_punct)
  next
    assume "hd d = CHR ''+'' \<and> list_all isDigit (tl d)"
    then show ?thesis using d digits_no_punct [of cs] by auto
  qed
qed

lemma validBaseName_sound:
  assumes v: "validBaseName name" and nl: "name \<noteq> ''planet-latest.osm.pbf''"
  shows "\<exists>p d. name = p @ ''-'' @ d @ ''.osm.pbf'' \<and> CHR ''.'' \<notin> set p \<and> CHR ''-'' \<notin> set p \<and>
           length d = 6 \<and> (list_all isDigit d \<or> (hd d = CHR ''+'' \<and> list_all isDigit (tl d)))"
proof -
  from v nl have l3: "length (Split name CHR ''.'') = 3"
    by (simp add: validBaseName_def Let_def split: if_splits)
  then obtain a b c where parts: "Split name CHR ''.'' = [a, b, c]"
    unfolding length3 by blast
  from v nl parts have bc: "b = ''osm''" "c = ''pbf''"
    by (simp_all add: validBaseName_def Let_def split: if_splits)
  from parts have name: "name = a @ CHR ''.'' # b @ CHR ''.'' # c" and na: "CHR ''.'' \<notin> set a"
    unfolding Split3 by simp_all
  from v nl parts bc have l2: "length (Split a CHR ''-'') = 2"
    by (simp add: validBaseName_def Let_def split: if_splits)
  then obtain p d where parts2: "Split a CHR ''-'' = [p, d]"
    unfolding length2 by blast
  from parts2 have a: "a = p @ CHR ''-'' # d" and np: "CHR ''-'' \<notin> set p" and nd: "CHR ''-'' \<notin> set d"
    unfolding Split2 by simp_all
  from v nl parts bc parts2 have at: "\<exists>k. Atoi d = Inr k" and l6: "length d = 6"
    by (auto simp add: validBaseName_def Let_def split: if_splits sum.splits)
  from at l6 have six: "sixChars d" by (simp add: Atoi_six)
  from l6 obtain x xs where dx: "d = x # xs" by (cases d) auto
  with nd have "hd d \<noteq> CHR ''-''" by auto
  with six have form: "list_all isDigit d \<or> (hd d = CHR ''+'' \<and> list_all isDigit (tl d))"
    by (auto simp add: sixChars_def)
  from na a have "CHR ''.'' \<notin> set p" by simp
  with name a bc np l6 form show ?thesis by auto
qed

lemma validBaseName_complete:
  assumes name: "name = p @ ''-'' @ d @ ''.osm.pbf''"
    and p: "CHR ''.'' \<notin> set p" "CHR ''-'' \<notin> set p"
    and l6: "length d = 6"
    and form: "list_all isDigit d \<or> (hd d = CHR ''+'' \<and> list_all isDigit (tl d))"
  shows "validBaseName name"
proof -
  from sixChars_no_punct [OF l6 form] have nd: "CHR ''.'' \<notin> set d" "CHR ''-'' \<notin> set d"
    by simp_all
  have "name = (p @ CHR ''-'' # d) @ CHR ''.'' # ''osm'' @ CHR ''.'' # ''pbf''"
    using name by simp
  moreover have "CHR ''.'' \<notin> set (p @ CHR ''-'' # d)" using p nd by simp
  ultimately have parts: "Split name CHR ''.'' = [p @ CHR ''-'' # d, ''osm'', ''pbf'']"
    unfolding Split3 by simp
  have parts2: "Split (p @ CHR ''-'' # d) CHR ''-'' = [p, d]"
    unfolding Split2 using p nd by simp
  from l6 form have "sixChars d" by (auto simp add: sixChars_def)
  with l6 obtain k where at: "Atoi d = Inr k" using Atoi_six [of d] by blast
  show ?thesis
    by (simp add: validBaseName_def Let_def parts parts2 at l6)
qed

text \<open>
  C9, as the code has it. \<open>validBaseName\<close> accepts \<open>planet-latest.osm.pbf\<close> and the
  names \<open>P-N.osm.pbf\<close> where \<open>P\<close> is any string without \<open>.\<close> and \<open>-\<close> (it need not be
  \<open>planet\<close>) and \<open>N\<close> has six bytes that \<open>Atoi\<close> accepts: six decimal digits, or \<open>+\<close> and
  five decimal digits. It accepts nothing else; every name of the planet grammar is among
  these.
\<close>

theorem validBaseName_accepts:
  "(validBaseName name \<longleftrightarrow>
      name = ''planet-latest.osm.pbf'' \<or>
      (\<exists>p d. name = p @ ''-'' @ d @ ''.osm.pbf'' \<and> CHR ''.'' \<notin> set p \<and> CHR ''-'' \<notin> set p \<and>
         length d = 6 \<and>
         (list_all isDigit d \<or> (hd d = CHR ''+'' \<and> list_all isDigit (tl d))))) \<and>
   (planetGrammar name \<longrightarrow> validBaseName name)"
proof -
  have latest: "validBaseName ''planet-latest.osm.pbf''"
    by (simp add: validBaseName_def)
  have char: "validBaseName name \<longleftrightarrow>
      name = ''planet-latest.osm.pbf'' \<or>
      (\<exists>p d. name = p @ ''-'' @ d @ ''.osm.pbf'' \<and> CHR ''.'' \<notin> set p \<and> CHR ''-'' \<notin> set p \<and>
         length d = 6 \<and>
         (list_all isDigit d \<or> (hd d = CHR ''+'' \<and> list_all isDigit (tl d))))"
    using latest validBaseName_sound [of name] validBaseName_complete [of name] by blast
  have "planetGrammar name \<Longrightarrow> validBaseName name"
  proof -
    assume "planetGrammar name"
    then consider "name = ''planet-latest.osm.pbf''"
      | ds where "length ds = 6" "list_all isDigit ds" "name = ''planet-'' @ ds @ ''.osm.pbf''"
      unfolding planetGrammar_def by blast
    then show "validBaseName name"
    proof cases
      case 1
      then show ?thesis using latest by simp
    next
      case 2
      show ?thesis
        by (rule validBaseName_complete [of name "''planet''" ds]) (use 2 in simp_all)
    qed
  qed
  with char show ?thesis by blast
qed

theorem validBaseName_accepts_witness:
  "planetGrammar ''planet-210329.osm.pbf'' \<and> validBaseName ''planet-210329.osm.pbf''"
proof -
  have g: "planetGrammar ''planet-210329.osm.pbf''"
    unfolding planetGrammar_def
    by (rule disjI2, rule exI [of _ "''210329''"]) (simp add: isDigit_def)
  with validBaseName_accepts [of "''planet-210329.osm.pbf''"] show ?thesis by blast
qed

text \<open>
  The claim fails on a name with another prefix and on a name with a sign among the six
  characters: both are accepted, neither is in the grammar.
\<close>

lemma not_grammar_prefix: "\<not> planetGrammar ''foo-123456.osm.pbf''"
  by (simp add: planetGrammar_def)

lemma not_grammar_sign: "\<not> planetGrammar ''planet-+12345.osm.pbf''"
  by (auto simp add: planetGrammar_def isDigit_def)

theorem validBaseName_counterexample:
  "validBaseName ''foo-123456.osm.pbf'' \<and> \<not> planetGrammar ''foo-123456.osm.pbf'' \<and>
   validBaseName ''planet-+12345.osm.pbf'' \<and> \<not> planetGrammar ''planet-+12345.osm.pbf''"
proof -
  have "validBaseName ''foo-123456.osm.pbf''" by code_simp
  moreover have "validBaseName ''planet-+12345.osm.pbf''" by code_simp
  ultimately show ?thesis using not_grammar_prefix not_grammar_sign by simp
qed


section \<open>The downloader and the status of the GET response\<close>

text \<open>
  A server that answers HEAD with 200 and a length of 9, and GET with the given status
  and the given body; an empty file; nothing fails and nobody calls \<open>Stop\<close>.
\<close>

definition notFoundBody :: "byte list" where
  "notFoundBody = map (\<lambda>c. of_nat (of_char c)) ''Not Found''"

definition serverEnv :: "int \<Rightarrow> (byte list \<times> go_error option) list \<Rightarrow> dlEnv" where
  "serverEnv getStatus body =
     \<lparr>env_Head = (\<lambda>u. Inr \<lparr>StatusCode = 200, ContentLength = ''9'', Body = []\<rparr>),
      env_OpenFile = (\<lambda>p. Inr []),
      env_Seek = None,
      env_NewRequest = (\<lambda>u. None),
      env_Do = (\<lambda>u r. Inr \<lparr>StatusCode = getStatus, ContentLength = ''9'', Body = body\<rparr>),
      env_dlErr = (\<lambda>k. None),
      env_Write = (\<lambda>k. None),
      env_Sync = None,
      env_Close = None\<rparr>"

definition newDl :: dlState where
  "newDl = \<lparr>st_file = [],
            st_dl = \<lparr>dl_done = False, dl_path = [], dl_err = None, dl_downloaded = 0, dl_size = 0\<rparr>\<rparr>"


text \<open>
  C2 fails on the code. The status test of \<open>download\<close> stands before \<open>client.Do\<close> and
  reads the HEAD response, so the status of the GET response is never looked at: a 404
  answer with a body of 9 bytes is written to the file and the download ends without an
  error.
\<close>

theorem download_ignores_get_status:
  "download (serverEnv 404 [(notFoundBody, None), ([], Some EOF)])
       ''http://example.org/x.pbf'' ''x.pbf'' newDl =
     (None,
      \<lparr>st_file = notFoundBody,
       st_dl = \<lparr>dl_done = False, dl_path = ''x.pbf'', dl_err = None,
                dl_downloaded = 9, dl_size = 9\<rparr>\<rparr>)"
  by code_simp


lemma readBodyLoop_env_Do:
  "readBodyLoop (env\<lparr>env_Do := d\<rparr>) sz reads k written s = readBodyLoop env sz reads k written s"
proof (induction reads arbitrary: k written s)
  case Nil
  show ?case by simp
next
  case (Cons a reads)
  obtain packet err where a: "a = (packet, err)" by (cases a)
  show ?case
    unfolding a by (simp add: Let_def Cons.IH cong: option.case_cong if_cong)
qed

text \<open>The result of \<open>download\<close> does not depend on the status of the GET response at all.\<close>

lemma download_get_status_irrelevant:
  "download (env\<lparr>env_Do := (\<lambda>u r. map_sum id (\<lambda>res. res\<lparr>StatusCode := c\<rparr>) (env_Do env u r))\<rparr>)
       url path st = download env url path st"
  by (simp add: download_def Let_def readBodyLoop_env_Do case_sum_map_sum o_def
      cong: sum.case_cong option.case_cong prod.case_cong if_cong)


section \<open>The tailing reader\<close>

text \<open>The turn in which the file is exhausted and the downloader has no error.\<close>

definition eofTurn :: "int \<Rightarrow> readTurn" where
  "eofTurn S = \<lparr>turn_n = 0, turn_err = Some EOF, turn_dlErr = None, turn_size = S\<rparr>"

lemma Read_eofTurn:
  "Read rd (eofTurn S # ts) =
     (if rd_read rd > S then Returned 0 (Some CorruptTooMuchData) rd
      else if rd_read rd = S then Returned 0 (Some EOF) rd
      else Read rd ts)"
  by (simp add: eofTurn_def)

text \<open>
  The turns of a call with a non-empty buffer. \<open>os.File.Read\<close> returns \<open>n > 0\<close>, or \<open>0\<close>
  with an error, which is \<open>io.EOF\<close> at the end of the file; it never returns \<open>io.EOF\<close>
  together with bytes. The error the downloader records is never \<open>io.EOF\<close>: it is the
  \<open>stopped\<close> error or an error \<open>download\<close> returned, and \<open>download\<close> turns the \<open>io.EOF\<close> of
  the response body into \<open>nil\<close> or \<open>io.ErrUnexpectedEOF\<close>.
\<close>

definition fileTurn :: "int \<Rightarrow> readTurn \<Rightarrow> bool" where
  "fileTurn S t =
     (((0 < turn_n t \<and> turn_err t \<noteq> Some EOF) \<or> (turn_n t = 0 \<and> turn_err t \<noteq> None)) \<and>
      turn_dlErr t \<noteq> Some EOF \<and> turn_size t = S)"

lemma Read_contract:
  assumes "list_all (fileTurn S) ts"
    and "Read rd ts = Returned n e rd'"
  shows "(e = None \<longrightarrow> 0 < n) \<and>
         (e = Some EOF \<longrightarrow>
            n = 0 \<and> rd_read rd' = S \<and>
            (\<exists>t \<in> set ts. turn_n t = 0 \<and> turn_err t = Some EOF \<and> turn_dlErr t = None)) \<and>
         (e \<noteq> None \<and> e \<noteq> Some EOF \<longrightarrow>
            (\<exists>t \<in> set ts. e = turn_dlErr t \<or> e = turn_err t) \<or>
            (e = Some CorruptTooMuchData \<and> n = 0 \<and> S < rd_read rd')) \<and>
         (rd_read rd' < S \<longrightarrow>
            (e = None \<and> 0 < n) \<or>
            (e \<noteq> None \<and> e \<noteq> Some EOF \<and> (\<exists>t \<in> set ts. e = turn_dlErr t \<or> e = turn_err t))) \<and>
         rd_read rd' = rd_read rd + n"
  using assms
proof (induction ts arbitrary: rd)
  case Nil
  then show ?case by simp
next
  case (Cons t ts)
  from Cons.prems(1) have t: "fileTurn S t" and rest: "list_all (fileTurn S) ts" by simp_all
  show ?case
  proof (cases "turn_dlErr t = None \<and> turn_err t = Some EOF \<and> turn_n t = 0 \<and> rd_read rd < S")
    case True
    with Cons.prems(2) t have "Read rd ts = Returned n e rd'"
      by (simp add: Let_def fileTurn_def)
    from Cons.IH [OF rest this] show ?thesis by auto
  next
    case False
    with Cons.prems(2) t show ?thesis
      by (auto simp add: Let_def fileTurn_def split: if_splits; metis)
  qed
qed

text \<open>
  C7, as the code has it. Take a call with a non-empty buffer while \<open>dl.size\<close> is \<open>S\<close>. If the call
  returns \<open>(n, e)\<close>: a nil error comes with \<open>n > 0\<close>, so \<open>(0, nil)\<close> is never returned;
  \<open>EOF\<close> is returned only with \<open>n = 0\<close> and the read total exactly \<open>S\<close>, after a turn
  that found the file exhausted and no error of the downloader; any other error is
  the downloader's recorded error, an error of the file, or the corrupt error with
  \<open>n = 0\<close> and the read total above \<open>S\<close>; with the read total below \<open>S\<close> the return is
  \<open>(n, nil)\<close> with \<open>n > 0\<close> or carries the downloader's error or an error of the file; the
  read total grows by \<open>n\<close>. When the file is exhausted and the downloader has no error,
  the call returns the corrupt error above \<open>S\<close>, \<open>EOF\<close> at \<open>S\<close>, and below \<open>S\<close> waits and
  goes round again.
\<close>

theorem tail_read_contract:
  assumes "list_all (fileTurn S) ts"
    and "Read rd ts = Returned n e rd'"
  shows "(e = None \<longrightarrow> 0 < n) \<and>
         (e = Some EOF \<longrightarrow>
            n = 0 \<and> rd_read rd' = S \<and>
            (\<exists>t \<in> set ts. turn_n t = 0 \<and> turn_err t = Some EOF \<and> turn_dlErr t = None)) \<and>
         (e \<noteq> None \<and> e \<noteq> Some EOF \<longrightarrow>
            (\<exists>t \<in> set ts. e = turn_dlErr t \<or> e = turn_err t) \<or>
            (e = Some CorruptTooMuchData \<and> n = 0 \<and> S < rd_read rd')) \<and>
         (rd_read rd' < S \<longrightarrow>
            (e = None \<and> 0 < n) \<or>
            (e \<noteq> None \<and> e \<noteq> Some EOF \<and> (\<exists>t \<in> set ts. e = turn_dlErr t \<or> e = turn_err t))) \<and>
         rd_read rd' = rd_read rd + n \<and>
         Read rd0 (eofTurn S # ts0) =
           (if rd_read rd0 > S then Returned 0 (Some CorruptTooMuchData) rd0
            else if rd_read rd0 = S then Returned 0 (Some EOF) rd0
            else Read rd0 ts0)"
  using Read_contract [OF assms] Read_eofTurn [of rd0 S ts0] by blast

text \<open>
  A reader at 4 of 10 bytes: the first read finds the file exhausted and waits, the
  second reads 6 bytes. A reader at 10 of 10 bytes gets \<open>EOF\<close>.
\<close>

theorem tail_read_contract_witness:
  "Read \<lparr>rd_read = 4\<rparr>
       [eofTurn 10, \<lparr>turn_n = 6, turn_err = None, turn_dlErr = None, turn_size = 10\<rparr>] =
     Returned 6 None \<lparr>rd_read = 10\<rparr> \<and>
   (0 :: int) < 6 \<and>
   Read \<lparr>rd_read = 10\<rparr> [eofTurn 10] = Returned 0 (Some EOF) \<lparr>rd_read = 10\<rparr>"
proof -
  let ?ts = "[eofTurn 10, \<lparr>turn_n = 6, turn_err = None, turn_dlErr = None, turn_size = 10\<rparr>]"
  have h: "list_all (fileTurn 10) ?ts"
    by (simp add: eofTurn_def fileTurn_def)
  have r: "Read \<lparr>rd_read = 4\<rparr> ?ts = Returned 6 None \<lparr>rd_read = 10\<rparr>"
    by (simp add: eofTurn_def)
  from tail_read_contract [OF h r, of "\<lparr>rd_read = 10\<rparr>" "[]"] r show ?thesis by simp
qed

text \<open>
  The claim fails for a call with an empty buffer: the file read returns \<open>(0, nil)\<close>, and
  so does the tailing reader.
\<close>

theorem tail_read_counterexample:
  "Read \<lparr>rd_read = 0\<rparr> [\<lparr>turn_n = 0, turn_err = None, turn_dlErr = None, turn_size = 10\<rparr>] =
     Returned 0 None \<lparr>rd_read = 0\<rparr>"
  by simp


lemma collect_int64s_acc:
  "ForEachPackedInt64 dat (\<lambda>x acc. Ok (acc @ [x])) acc =
     mapResult ((@) acc) (ForEachPackedInt64 dat (\<lambda>x acc. Ok (acc @ [x])) [])"
proof (induction "length dat" arbitrary: dat acc rule: less_induct)
  case less
  show ?case
  proof (cases "dat = []")
    case True
    then show ?thesis by (simp add: ForEachPackedInt64.simps [of "[]"])
  next
    case False
    obtain x n where u: "Varint dat = (x, n)" by (cases "Varint dat")
    show ?thesis
    proof (cases "n \<le> 0")
      case True
      have "\<And>a. ForEachPackedInt64 dat (\<lambda>x acc. Ok (acc @ [x])) a =
          (if n = 0 then Error BufferTooSmall a else Error ValueLargerThan64 a)"
        using False u True by (subst ForEachPackedInt64.simps) simp
      then show ?thesis by simp
    next
      case n: False
      have sh: "length (drop (nat n) dat) < length dat" using False n by simp
      have st: "\<And>a. ForEachPackedInt64 dat (\<lambda>x acc. Ok (acc @ [x])) a =
          ForEachPackedInt64 (drop (nat n) dat) (\<lambda>x acc. Ok (acc @ [x])) (a @ [x])"
        using False u n by (subst ForEachPackedInt64.simps) simp
      have "ForEachPackedInt64 dat (\<lambda>x acc. Ok (acc @ [x])) acc =
          mapResult ((@) (acc @ [x])) (ForEachPackedInt64 (drop (nat n) dat) (\<lambda>x acc. Ok (acc @ [x])) [])"
        unfolding st by (rule less [OF sh])
      also have "\<dots> = mapResult ((@) acc) (mapResult ((@) [x])
          (ForEachPackedInt64 (drop (nat n) dat) (\<lambda>x acc. Ok (acc @ [x])) []))"
        by (cases "ForEachPackedInt64 (drop (nat n) dat) (\<lambda>x acc. Ok (acc @ [x])) []") simp_all
      also have "\<dots> = mapResult ((@) acc) (ForEachPackedInt64 dat (\<lambda>x acc. Ok (acc @ [x])) [])"
        using less [OF sh, of "[x]"] st [of "[]"] by simp
      finally show ?thesis .
    qed
  qed
qed

lemma packedInt64s_step:
  "packedInt64s dat =
     (if dat = [] then Ok []
      else (let (x, n) = Varint dat in
        if n \<le> 0 then (if n = 0 then Error BufferTooSmall [] else Error ValueLargerThan64 [])
        else mapResult ((#) x) (packedInt64s (drop (nat n) dat))))"
proof (cases "dat = []")
  case True
  then show ?thesis by (simp add: packedInt64s_def ForEachPackedInt64.simps [of "[]"])
next
  case False
  obtain x n where u: "Varint dat = (x, n)" by (cases "Varint dat")
  show ?thesis
  proof (cases "n \<le> 0")
    case True
    with False u show ?thesis
      unfolding packedInt64s_def by (subst ForEachPackedInt64.simps) simp
  next
    case n: False
    have "packedInt64s dat = ForEachPackedInt64 (drop (nat n) dat) (\<lambda>x acc. Ok (acc @ [x])) [x]"
      unfolding packedInt64s_def using False u n by (subst ForEachPackedInt64.simps) simp
    also have "\<dots> = mapResult ((@) [x]) (packedInt64s (drop (nat n) dat))"
      unfolding packedInt64s_def by (rule collect_int64s_acc)
    also have "\<dots> = mapResult ((#) x) (packedInt64s (drop (nat n) dat))"
      by (cases "packedInt64s (drop (nat n) dat)") simp_all
    finally show ?thesis using False u n by simp
  qed
qed

lemma packedInt64s_no_panic: "packedInt64s dat \<noteq> Panic"
proof (induction "length dat" arbitrary: dat rule: less_induct)
  case less
  show ?case
  proof (cases "dat = []")
    case True
    then show ?thesis by (subst packedInt64s_step) simp
  next
    case False
    obtain x n where u: "Varint dat = (x, n)" by (cases "Varint dat")
    show ?thesis
    proof (cases "n \<le> 0")
      case True
      with False u show ?thesis by (subst packedInt64s_step) simp
    next
      case n: False
      have sh: "length (drop (nat n) dat) < length dat" using False n by simp
      have "packedInt64s (drop (nat n) dat) \<noteq> Panic" by (rule less [OF sh])
      then show ?thesis
        using False u n
        by (subst packedInt64s_step) (cases "packedInt64s (drop (nat n) dat)", simp_all)
    qed
  qed
qed

lemma ForEachPackedInt64_replay:
  "ForEachPackedInt64 dat iter s = replay iter (packedInt64s dat) s"
proof (induction "length dat" arbitrary: dat s rule: less_induct)
  case less
  show ?case
  proof (cases "dat = []")
    case True
    then show ?thesis
      by (subst packedInt64s_step) (simp add: ForEachPackedInt64.simps [of "[]"])
  next
    case False
    obtain x n where u: "Varint dat = (x, n)" by (cases "Varint dat")
    show ?thesis
    proof (cases "n \<le> 0")
      case True
      have "ForEachPackedInt64 dat iter s =
          (if n = 0 then Error BufferTooSmall s else Error ValueLargerThan64 s)"
        using False u True by (subst ForEachPackedInt64.simps) simp
      moreover have "packedInt64s dat =
          (if n = 0 then Error BufferTooSmall [] else Error ValueLargerThan64 [])"
        using False u True by (subst packedInt64s_step) simp
      ultimately show ?thesis by simp
    next
      case n: False
      have sh: "length (drop (nat n) dat) < length dat" using False n by simp
      have po: "packedInt64s dat = mapResult ((#) x) (packedInt64s (drop (nat n) dat))"
        using False u n by (subst packedInt64s_step) simp
      show ?thesis
      proof (cases "iter x s")
        case (Ok s1)
        have "ForEachPackedInt64 dat iter s = ForEachPackedInt64 (drop (nat n) dat) iter s1"
          using False u n Ok by (subst ForEachPackedInt64.simps) simp
        also have "\<dots> = replay iter (packedInt64s (drop (nat n) dat)) s1"
          by (rule less [OF sh])
        also have "\<dots> = replay iter (packedInt64s dat) s"
          unfolding po using Ok by (cases "packedInt64s (drop (nat n) dat)") simp_all
        finally show ?thesis .
      next
        case (Error e s1)
        have "ForEachPackedInt64 dat iter s = Error e s1"
          using False u n Error by (subst ForEachPackedInt64.simps) simp
        moreover have "replay iter (packedInt64s dat) s = Error e s1"
          unfolding po using Error packedInt64s_no_panic [of "drop (nat n) dat"]
          by (cases "packedInt64s (drop (nat n) dat)") simp_all
        ultimately show ?thesis by simp
      next
        case Panic
        have "ForEachPackedInt64 dat iter s = Panic"
          using False u n Panic by (subst ForEachPackedInt64.simps) simp
        moreover have "replay iter (packedInt64s dat) s = Panic"
          unfolding po using Panic by (cases "packedInt64s (drop (nat n) dat)") simp_all
        ultimately show ?thesis by simp
      qed
    qed
  qed
qed


section \<open>Ways: keys and values\<close>

text \<open>
  The interleaved array \<open>[k, v, k, v, ...]\<close> for keys \<open>ks\<close> and values \<open>vs\<close>, with \<open>0\<close> in
  the value slot of a key that has no value.
\<close>

fun kvPairs :: "uint64 list \<Rightarrow> uint64 list \<Rightarrow> uint32 list" where
  "kvPairs [] vs = []"
| "kvPairs (k # ks) [] = ucast k # 0 # kvPairs ks []"
| "kvPairs (k # ks) (v # vs) = ucast k # ucast v # kvPairs ks vs"

text \<open>What the fields of a way message other than keys and vals leave alone.\<close>

definition sameStrings :: "wayState \<Rightarrow> wayState \<Rightarrow> bool" where
  "sameStrings st st' =
     (wayStrings (ws_block st') = wayStrings (ws_block st) \<and> ws_strValIdx st' = ws_strValIdx st)"

lemma wayRef_fold:
  "\<exists>a' st'. foldResult wayRef rs (a, st) = Ok (a', st') \<and> sameStrings st st'"
proof (induction rs arbitrary: a st)
  case Nil
  show ?case by (simp add: sameStrings_def)
next
  case (Cons r rs)
  let ?st1 = "st\<lparr>ws_block := (ws_block st)\<lparr>wayRefs := wayRefs (ws_block st) @ [a + r]\<rparr>\<rparr>"
  have step: "wayRef r (a, st) = Ok (a + r, ?st1)" by (simp add: wayRef_def Let_def)
  from Cons.IH [of "a + r" ?st1] obtain a' st' where
    "foldResult wayRef rs (a + r, ?st1) = Ok (a', st')" "sameStrings ?st1 st'" by blast
  then show ?case by (auto simp add: step sameStrings_def)
qed

lemma wayField_other:
  assumes "Num f \<noteq> 2" "Num f \<noteq> 3" "Num f = 8 \<longrightarrow> (\<exists>rs. packedInt64s (f_data f) = Ok rs)"
  shows "\<exists>st'. wayField f st = Ok st' \<and> sameStrings st st'"
proof (cases "Num f = 8")
  case True
  with assms(3) obtain rs where rs: "packedInt64s (f_data f) = Ok rs" by blast
  from wayRef_fold [of rs 0 st] obtain a' st' where
    "foldResult wayRef rs (0, st) = Ok (a', st')" "sameStrings st st'" by blast
  with True rs show ?thesis
    by (simp add: wayField_def ForEachPackedInt64_replay)
next
  case False
  with assms show ?thesis by (simp add: wayField_def sameStrings_def)
qed

lemma wayKey_fold:
  "\<exists>st'. foldResult wayKey ks st = Ok st' \<and>
     wayStrings (ws_block st') = wayStrings (ws_block st) @ kvPairs ks [] \<and>
     ws_strValIdx st' = ws_strValIdx st"
proof (induction ks arbitrary: st)
  case Nil
  show ?case by simp
next
  case (Cons k ks)
  let ?st1 = "st\<lparr>ws_block := (ws_block st)\<lparr>wayStrings := wayStrings (ws_block st) @ [ucast k, 0]\<rparr>\<rparr>"
  have step: "wayKey k st = Ok ?st1" by (simp add: wayKey_def)
  from Cons.IH [of ?st1] obtain st' where
    "foldResult wayKey ks ?st1 = Ok st'"
    "wayStrings (ws_block st') = wayStrings (ws_block ?st1) @ kvPairs ks []"
    "ws_strValIdx st' = ws_strValIdx ?st1" by blast
  then show ?case by (simp add: step)
qed

lemma foldResult_append:
  "foldResult iter (xs @ ys) s =
     (case foldResult iter xs s of
        Ok s' \<Rightarrow> foldResult iter ys s'
      | Error e s' \<Rightarrow> Error e s'
      | Panic \<Rightarrow> Panic)"
  by (induction xs arbitrary: s) (simp_all split: result.splits)

text \<open>
  The entries of a packed field, and the keys and the vals of a way message: the entries
  of its \<open>#2\<close> fields and of its \<open>#3\<close> fields, in the order of the message.
\<close>

definition entries :: "Field \<Rightarrow> uint64 list" where
  "entries f = (case packedUint64s (f_data f) of Ok xs \<Rightarrow> xs | Error e xs \<Rightarrow> xs | Panic \<Rightarrow> [])"

definition keysOf :: "Field list \<Rightarrow> uint64 list" where
  "keysOf fs = concat (map entries (filter (\<lambda>f. Num f = 2) fs))"

definition valsOf :: "Field list \<Rightarrow> uint64 list" where
  "valsOf fs = concat (map entries (filter (\<lambda>f. Num f = 3) fs))"

lemma kvPairs_length [simp]: "length (kvPairs ks vs) = 2 * length ks"
  by (induction ks vs rule: kvPairs.induct) simp_all

lemma kvPairs_keys_append:
  "length vs \<le> length ks \<Longrightarrow> kvPairs (ks @ xs) vs = kvPairs ks vs @ kvPairs xs []"
  by (induction ks vs rule: kvPairs.induct) simp_all

lemma kvPairs_write:
  "length vs < length ks \<Longrightarrow>
     (kvPairs ks vs)[Suc (2 * length vs) := ucast v] = kvPairs ks (vs @ [v])"
  by (induction ks vs rule: kvPairs.induct) simp_all

lemma wayVal_fold:
  assumes "wayStrings (ws_block st) = base @ kvPairs ks vs0"
    and "ws_strValIdx st = length base + 1 + 2 * length vs0"
    and "length vs0 + length vs \<le> length ks"
  shows "\<exists>st'. foldResult wayVal vs st = Ok st' \<and>
     wayStrings (ws_block st') = base @ kvPairs ks (vs0 @ vs) \<and>
     ws_strValIdx st' = length base + 1 + 2 * length (vs0 @ vs)"
  using assms
proof (induction vs arbitrary: st vs0)
  case Nil
  then show ?case by simp
next
  case (Cons v vs)
  from Cons.prems(3) have lt: "length vs0 < length ks" by simp
  let ?st1 = "st\<lparr>ws_block := (ws_block st)
        \<lparr>wayStrings := (wayStrings (ws_block st))[ws_strValIdx st := ucast v]\<rparr>,
      ws_strValIdx := ws_strValIdx st + 2\<rparr>"
  have step: "wayVal v st = Ok ?st1"
    using Cons.prems(1,2) lt by (simp add: wayVal_def)
  have "(base @ kvPairs ks vs0)[length base + 1 + 2 * length vs0 := ucast v] =
          base @ (kvPairs ks vs0)[Suc (2 * length vs0) := ucast v]"
    by (simp add: list_update_append)
  also have "\<dots> = base @ kvPairs ks (vs0 @ [v])"
    using lt by (simp only: kvPairs_write)
  finally have upd: "wayStrings (ws_block ?st1) = base @ kvPairs ks (vs0 @ [v])"
    using Cons.prems(1,2) by simp
  have idx: "ws_strValIdx ?st1 = length base + 1 + 2 * length (vs0 @ [v])"
    using Cons.prems(2) by simp
  have len: "length (vs0 @ [v]) + length vs \<le> length ks" using Cons.prems(3) by simp
  from Cons.IH [OF upd idx len] obtain st' where
    "foldResult wayVal vs ?st1 = Ok st'"
    "wayStrings (ws_block st') = base @ kvPairs ks ((vs0 @ [v]) @ vs)"
    "ws_strValIdx st' = length base + 1 + 2 * length ((vs0 @ [v]) @ vs)" by blast
  with step show ?case by simp
qed

lemma keysOf_snoc: "keysOf (fs @ [f]) = keysOf fs @ (if Num f = 2 then entries f else [])"
  by (simp add: keysOf_def)

lemma valsOf_snoc: "valsOf (fs @ [f]) = valsOf fs @ (if Num f = 3 then entries f else [])"
  by (simp add: valsOf_def)

text \<open>
  The run of the closure of \<open>procWay\<close> over the fields of a message in which the vals
  never outnumber the keys read before them.
\<close>

lemma wayFields_run:
  assumes "\<forall>f \<in> set fs.
      (Num f = 2 \<or> Num f = 3 \<longrightarrow> (\<exists>xs. packedUint64s (f_data f) = Ok xs)) \<and>
      (Num f = 8 \<longrightarrow> (\<exists>rs. packedInt64s (f_data f) = Ok rs))"
    and "\<forall>n. length (valsOf (take n fs)) \<le> length (keysOf (take n fs))"
    and "wayStrings (ws_block st) = base" "ws_strValIdx st = length base + 1"
  shows "\<exists>st'. foldResult wayField fs st = Ok st' \<and>
     wayStrings (ws_block st') = base @ kvPairs (keysOf fs) (valsOf fs) \<and>
     ws_strValIdx st' = length base + 1 + 2 * length (valsOf fs)"
  using assms(1,2)
proof (induction fs rule: rev_induct)
  case Nil
  show ?case using assms(3,4) by (simp add: keysOf_def valsOf_def)
next
  case (snoc f fs)
  have wf: "\<forall>f \<in> set fs.
      (Num f = 2 \<or> Num f = 3 \<longrightarrow> (\<exists>xs. packedUint64s (f_data f) = Ok xs)) \<and>
      (Num f = 8 \<longrightarrow> (\<exists>rs. packedInt64s (f_data f) = Ok rs))"
    using snoc.prems(1) by simp
  have fit: "\<forall>n. length (valsOf (take n fs)) \<le> length (keysOf (take n fs))"
  proof
    fix n
    from snoc.prems(2) have "length (valsOf (take (min n (length fs)) (fs @ [f])))
        \<le> length (keysOf (take (min n (length fs)) (fs @ [f])))" by blast
    then show "length (valsOf (take n fs)) \<le> length (keysOf (take n fs))"
      by (cases "n \<le> length fs") (simp_all add: min_def)
  qed
  from snoc.prems(2) have "length (valsOf (take (Suc (length fs)) (fs @ [f])))
      \<le> length (keysOf (take (Suc (length fs)) (fs @ [f])))" by blast
  then have all: "length (valsOf (fs @ [f])) \<le> length (keysOf (fs @ [f]))" by simp
  from fit have "length (valsOf (take (length fs) fs)) \<le> length (keysOf (take (length fs) fs))"
    by blast
  then have before: "length (valsOf fs) \<le> length (keysOf fs)" by simp
  from snoc.IH [OF wf fit] obtain st1 where
    run1: "foldResult wayField fs st = Ok st1" and
    str1: "wayStrings (ws_block st1) = base @ kvPairs (keysOf fs) (valsOf fs)" and
    idx1: "ws_strValIdx st1 = length base + 1 + 2 * length (valsOf fs)" by blast
  have "\<exists>st'. wayField f st1 = Ok st' \<and>
     wayStrings (ws_block st') = base @ kvPairs (keysOf (fs @ [f])) (valsOf (fs @ [f])) \<and>
     ws_strValIdx st' = length base + 1 + 2 * length (valsOf (fs @ [f]))"
    (is "\<exists>st'. ?step st'")
  proof -
    consider "Num f = 2" | "Num f = 3" | "Num f \<noteq> 2" "Num f \<noteq> 3" by blast
    then show ?thesis
    proof cases
      case 1
      with snoc.prems(1) obtain xs where xs: "packedUint64s (f_data f) = Ok xs" by auto
      then have e: "entries f = xs" by (simp add: entries_def)
      from wayKey_fold [of xs st1] obtain st' where
        k: "foldResult wayKey xs st1 = Ok st'"
           "wayStrings (ws_block st') = wayStrings (ws_block st1) @ kvPairs xs []"
           "ws_strValIdx st' = ws_strValIdx st1" by blast
      have "wayField f st1 = Ok st'"
        using 1 xs k(1) by (simp add: wayField_def ForEachPackedUint64_replay)
      moreover have "wayStrings (ws_block st') =
          base @ kvPairs (keysOf (fs @ [f])) (valsOf (fs @ [f]))"
        using 1 e k(2) str1 before by (simp add: keysOf_snoc valsOf_snoc kvPairs_keys_append)
      moreover have "ws_strValIdx st' = length base + 1 + 2 * length (valsOf (fs @ [f]))"
        using 1 k(3) idx1 by (simp add: valsOf_snoc)
      ultimately show ?thesis by blast
    next
      case 2
      with snoc.prems(1) obtain xs where xs: "packedUint64s (f_data f) = Ok xs" by auto
      then have e: "entries f = xs" by (simp add: entries_def)
      from all 2 e have len: "length (valsOf fs) + length xs \<le> length (keysOf fs)"
        by (simp add: keysOf_snoc valsOf_snoc)
      from wayVal_fold [OF str1 idx1 len] obtain st' where
        v: "foldResult wayVal xs st1 = Ok st'"
           "wayStrings (ws_block st') = base @ kvPairs (keysOf fs) (valsOf fs @ xs)"
           "ws_strValIdx st' = length base + 1 + 2 * length (valsOf fs @ xs)" by blast
      have "wayField f st1 = Ok st'"
        using 2 xs v(1) by (simp add: wayField_def ForEachPackedUint64_replay)
      with 2 e v(2,3) show ?thesis by (simp add: keysOf_snoc valsOf_snoc)
    next
      case 3
      from snoc.prems(1) have "Num f = 8 \<longrightarrow> (\<exists>rs. packedInt64s (f_data f) = Ok rs)" by simp
      from wayField_other [OF 3 this, of st1] obtain st' where
        "wayField f st1 = Ok st'" "sameStrings st1 st'" by blast
      with 3 str1 idx1 show ?thesis by (simp add: keysOf_snoc valsOf_snoc sameStrings_def)
    qed
  qed
  then obtain st' where st': "?step st'" by blast
  with run1 have "foldResult wayField (fs @ [f]) st = Ok st'" by (simp add: foldResult_append)
  with st' show ?case by blast
qed

text \<open>
  Messages with the keys fields before the vals fields and at most as many vals as keys,
  and so messages with no vals field at all, are of this kind.
\<close>

lemma valsOf_take_le: "length (valsOf (take n fs)) \<le> length (valsOf fs)"
proof -
  have "valsOf fs = valsOf (take n fs) @ valsOf (drop n fs)"
    unfolding valsOf_def by (simp only: filter_append [symmetric] map_append [symmetric]
        concat_append [symmetric] append_take_drop_id)
  then show ?thesis by simp
qed

lemma keys_first_fit:
  assumes "\<forall>f \<in> set pre. Num f \<noteq> 3" "\<forall>f \<in> set post. Num f \<noteq> 2"
    and "length (valsOf post) \<le> length (keysOf pre)"
  shows "length (valsOf (take n (pre @ post))) \<le> length (keysOf (take n (pre @ post)))"
proof -
  have "filter (\<lambda>f. Num f = 3) (take n pre) = []"
    using assms(1) by (auto simp add: filter_empty_conv dest: in_set_takeD)
  then have v0: "valsOf (take n pre) = []" by (simp add: valsOf_def)
  have "filter (\<lambda>f. Num f = 2) (take (n - length pre) post) = []"
    using assms(2) by (auto simp add: filter_empty_conv dest: in_set_takeD)
  then have k0: "keysOf (take (n - length pre) post) = []" by (simp add: keysOf_def)
  have app: "valsOf (take n (pre @ post)) = valsOf (take n pre) @ valsOf (take (n - length pre) post)"
    "keysOf (take n (pre @ post)) = keysOf (take n pre) @ keysOf (take (n - length pre) post)"
    by (simp_all add: valsOf_def keysOf_def)
  show ?thesis
  proof (cases "n \<le> length pre")
    case True
    then have "valsOf (take (n - length pre) post) = []" by (simp add: valsOf_def)
    with v0 app(1) show ?thesis by simp
  next
    case False
    then have "take n pre = pre" by simp
    with k0 app(2) have "keysOf (take n (pre @ post)) = keysOf pre" by simp
    moreover have "valsOf (take n (pre @ post)) = valsOf (take (n - length pre) post)"
      using v0 app(1) by simp
    ultimately show ?thesis
      using valsOf_take_le [of "n - length pre" post] assms(3) by simp
  qed
qed

text \<open>
  C5, as the code has it. Take a way message that parses into fields, with well-formed keys (\<open>#2\<close>),
  vals (\<open>#3\<close>) and refs (\<open>#8\<close>) fields, in which at every point the vals read so far do
  not outnumber the keys read so far. Then \<open>procWay\<close> completes without an error and has
  appended the pairs \<open>[k, v, k, v, ...]\<close> of all keys and vals to \<open>wayStrings\<close>, with \<open>0\<close>
  in the value slot of every key that has no value. This covers the messages with
  keys and no vals, and those with the keys before the vals and fewer vals than keys.
\<close>

theorem way_keys_cover_vals:
  assumes fields: "fieldsOf dat = Ok fs"
    and wf: "\<forall>f \<in> set fs.
      (Num f = 2 \<or> Num f = 3 \<longrightarrow> (\<exists>xs. packedUint64s (f_data f) = Ok xs)) \<and>
      (Num f = 8 \<longrightarrow> (\<exists>rs. packedInt64s (f_data f) = Ok rs))"
    and fit: "\<forall>n. length (valsOf (take n fs)) \<le> length (keysOf (take n fs))"
  shows "\<exists>b. procWay what dat block = Ok b \<and>
           wayStrings b = wayStrings block @ kvPairs (keysOf fs) (valsOf fs)"
proof -
  let ?st0 = "\<lparr>ws_way = zeroWay\<lparr>way_sset := of_nat (length (wayStrings block)),
                                way_rset := of_nat (length (wayRefs block))\<rparr>,
              ws_strValIdx = length (wayStrings block) + 1,
              ws_block = block\<rparr>"
  have "wayStrings (ws_block ?st0) = wayStrings block"
    "ws_strValIdx ?st0 = length (wayStrings block) + 1" by simp_all
  from wayFields_run [OF wf fit this] obtain st' where
    run: "foldResult wayField fs ?st0 = Ok st'" and
    str: "wayStrings (ws_block st') = wayStrings block @ kvPairs (keysOf fs) (valsOf fs)"
    by blast
  from run have "ForEachField dat wayField ?st0 = Ok st'"
    by (simp add: ForEachField_replay fields)
  with str show ?thesis by (simp add: procWay_def Let_def)
qed

text \<open>
  A way with id 7, keys \<open>[1, 2]\<close>, vals \<open>[9]\<close> and refs \<open>[1, 2]\<close>: key 2 keeps the value 0.
\<close>

theorem way_keys_cover_vals_witness:
  "procWay Everything [0x08, 7, 0x12, 2, 1, 2, 0x1A, 1, 9, 0x42, 2, 2, 2] zeroBlock =
     Ok (zeroBlock\<lparr>ways := [\<lparr>way_id = 7, way_sset = 0, way_send = 4, way_rset = 0, way_rend = 2\<rparr>],
                    wayStrings := [1, 9, 2, 0], wayRefs := [1, 2]\<rparr>) \<and>
   kvPairs [1, 2] [9] = [1, 9, 2, 0]"
proof -
  let ?dat = "[0x08, 7, 0x12, 2, 1, 2, 0x1A, 1, 9, 0x42, 2, 2, 2] :: byte list"
  let ?idf = "\<lparr>f_num = 1, f_typ = 0, f_data = [7]\<rparr>"
  let ?kf = "\<lparr>f_num = 2, f_typ = 2, f_data = [1, 2]\<rparr>"
  let ?vf = "\<lparr>f_num = 3, f_typ = 2, f_data = [9]\<rparr>"
  let ?rf = "\<lparr>f_num = 8, f_typ = 2, f_data = [2, 2]\<rparr>"
  have fields: "fieldsOf ?dat = Ok ([?idf, ?kf] @ [?vf, ?rf])" by code_simp
  have keys: "packedUint64s [1, 2] = Ok [1, 2]" by code_simp
  have vals: "packedUint64s [9] = Ok [9]" by code_simp
  have refs: "packedInt64s [2, 2] = Ok [1, 1]" by code_simp
  have wf: "\<forall>f \<in> set ([?idf, ?kf] @ [?vf, ?rf]).
      (Num f = 2 \<or> Num f = 3 \<longrightarrow> (\<exists>xs. packedUint64s (f_data f) = Ok xs)) \<and>
      (Num f = 8 \<longrightarrow> (\<exists>rs. packedInt64s (f_data f) = Ok rs))"
    by (simp add: Num_def keys vals refs)
  have k: "keysOf [?idf, ?kf] = [1, 2]" by (simp add: keysOf_def entries_def Num_def keys)
  have v: "valsOf [?vf, ?rf] = [9]" by (simp add: valsOf_def entries_def Num_def vals)
  have ka: "keysOf ([?idf, ?kf] @ [?vf, ?rf]) = [1, 2]"
    by (simp add: keysOf_def entries_def Num_def keys)
  have va: "valsOf ([?idf, ?kf] @ [?vf, ?rf]) = [9]"
    by (simp add: valsOf_def entries_def Num_def vals)
  have fit: "\<forall>n. length (valsOf (take n ([?idf, ?kf] @ [?vf, ?rf])))
      \<le> length (keysOf (take n ([?idf, ?kf] @ [?vf, ?rf])))"
    by (intro allI keys_first_fit) (simp_all add: Num_def k v)
  have run: "procWay Everything ?dat zeroBlock =
     Ok (zeroBlock\<lparr>ways := [\<lparr>way_id = 7, way_sset = 0, way_send = 4, way_rset = 0, way_rend = 2\<rparr>],
                    wayStrings := [1, 9, 2, 0], wayRefs := [1, 2]\<rparr>)"
    by code_simp
  from way_keys_cover_vals [OF fields wf fit, of Everything zeroBlock] run ka va
  show ?thesis by simp
qed

text \<open>
  The claim fails for more vals than keys: with keys \<open>[1]\<close> and vals \<open>[2, 3]\<close> the second
  value is written past the end of \<open>wayStrings\<close>, and the decoder panics.
\<close>

theorem way_more_vals_counterexample:
  "procWay Everything [0x12, 1, 1, 0x1A, 2, 2, 3] zeroBlock = Panic"
  by code_simp


section \<open>What the three decoders do to a block\<close>

text \<open>
  The states the closures of \<open>procWay\<close> can reach from a block \<open>b\<close>: only \<open>wayStrings\<close> and
  \<open>wayRefs\<close> differ, and they have not shrunk; the way under construction keeps the start
  of its windows.
\<close>

definition wayFrame :: "Block \<Rightarrow> wayState \<Rightarrow> bool" where
  "wayFrame b st =
     (\<exists>ss rs. ws_block st = b\<lparr>wayStrings := ss, wayRefs := rs\<rparr> \<and>
        length (wayStrings b) \<le> length ss \<and> length (wayRefs b) \<le> length rs \<and>
        way_sset (ws_way st) = of_nat (length (wayStrings b)) \<and>
        way_rset (ws_way st) = of_nat (length (wayRefs b)))"

lemma wayKey_frame: "wayFrame b s \<Longrightarrow> stateOf (wayKey x s) = Some s' \<Longrightarrow> wayFrame b s'"
  unfolding wayFrame_def wayKey_def
  by clarsimp (rule_tac x = "ss @ [ucast x, 0]" in exI, rule_tac x = rs in exI, simp)

lemma wayVal_frame: "wayFrame b s \<Longrightarrow> stateOf (wayVal x s) = Some s' \<Longrightarrow> wayFrame b s'"
  unfolding wayFrame_def wayVal_def
  by (clarsimp split: if_splits)
     (rule_tac x = "ss[ws_strValIdx s := ucast x]" in exI, rule_tac x = rs in exI, simp)

lemma wayRef_frame:
  assumes "wayFrame b (snd s)" "stateOf (wayRef x s) = Some s'"
  shows "wayFrame b (snd s')"
proof -
  obtain a st where s: "s = (a, st)" by (cases s)
  from assms(1) s obtain ss rs where f: "ws_block st = b\<lparr>wayStrings := ss, wayRefs := rs\<rparr>"
      "length (wayStrings b) \<le> length ss" "length (wayRefs b) \<le> length rs"
      "way_sset (ws_way st) = of_nat (length (wayStrings b))"
      "way_rset (ws_way st) = of_nat (length (wayRefs b))"
    by (auto simp add: wayFrame_def)
  from assms(2) s have s': "snd s' = st\<lparr>ws_block := (ws_block st)\<lparr>wayRefs := wayRefs (ws_block st) @ [a + x]\<rparr>\<rparr>"
    by (auto simp add: wayRef_def Let_def)
  show ?thesis
    unfolding wayFrame_def s'
    by (rule exI [of _ ss], rule exI [of _ "rs @ [a + x]"]) (use f in simp)
qed

lemma wayField_frame:
  assumes "wayFrame b st" "stateOf (wayField f st) = Some st'"
  shows "wayFrame b st'"
proof -
  consider "Num f = 1" | "Num f = 2" | "Num f = 3" | "Num f = 8"
    | "Num f \<noteq> 1 \<and> Num f \<noteq> 2 \<and> Num f \<noteq> 3 \<and> Num f \<noteq> 8" by blast
  then show ?thesis
  proof cases
    case 1
    with assms(2) have st': "st' = st\<lparr>ws_way := (ws_way st)\<lparr>way_id := Uint64 f\<rparr>\<rparr>"
      by (simp add: wayField_def)
    from assms(1) obtain ss rs where "ws_block st = b\<lparr>wayStrings := ss, wayRefs := rs\<rparr>"
      "length (wayStrings b) \<le> length ss" "length (wayRefs b) \<le> length rs"
      "way_sset (ws_way st) = of_nat (length (wayStrings b))"
      "way_rset (ws_way st) = of_nat (length (wayRefs b))"
      by (auto simp add: wayFrame_def)
    then show ?thesis
      unfolding wayFrame_def st'
      by (intro exI [of _ ss] exI [of _ rs]) simp
  next
    case 2
    with assms(2) have "stateOf (ForEachPackedUint64 (f_data f) wayKey st) = Some st'"
      by (simp add: wayField_def)
    then show ?thesis
      by (rule ForEachPackedUint64_invariant [where P = "wayFrame b" and iter = wayKey, rotated 2])
        (erule (1) wayKey_frame, rule assms(1))
  next
    case 3
    with assms(2) have "stateOf (ForEachPackedUint64 (f_data f) wayVal st) = Some st'"
      by (simp add: wayField_def)
    then show ?thesis
      by (rule ForEachPackedUint64_invariant [where P = "wayFrame b" and iter = wayVal, rotated 2])
        (erule (1) wayVal_frame, rule assms(1))
  next
    case 4
    with assms(2) obtain a where
      r: "stateOf (ForEachPackedInt64 (f_data f) wayRef (0, st)) = Some (a, st')"
      by (auto simp add: wayField_def stateOf_mapResult)
    have "wayFrame b (snd (a, st'))"
      by (rule ForEachPackedInt64_invariant
            [where P = "\<lambda>s. wayFrame b (snd s)" and iter = wayRef, rotated 2, OF r])
        (erule (1) wayRef_frame, simp add: assms(1))
    then show ?thesis by simp
  next
    case 5
    with assms show ?thesis by (auto simp add: wayField_def)
  qed
qed

text \<open>
  \<open>procWay\<close>, whether it returns an error or not, leaves a block in which \<open>wayStrings\<close> and
  \<open>wayRefs\<close> have grown and at most one way has been added: the way whose windows run
  from the old lengths to the new ones.
\<close>

lemma procWay_effect:
  assumes "stateOf (procWay what dat b) = Some b'"
  shows "\<exists>ss rs ws. b' = b\<lparr>wayStrings := ss, wayRefs := rs, ways := ways b @ ws\<rparr> \<and>
           length (wayStrings b) \<le> length ss \<and> length (wayRefs b) \<le> length rs \<and>
           (\<forall>w \<in> set ws.
              way_sset w = of_nat (length (wayStrings b)) \<and> way_send w = of_nat (length ss) \<and>
              way_rset w = of_nat (length (wayRefs b)) \<and> way_rend w = of_nat (length rs))"
proof -
  let ?st0 = "\<lparr>ws_way = zeroWay\<lparr>way_sset := of_nat (length (wayStrings b)),
                                way_rset := of_nat (length (wayRefs b))\<rparr>,
              ws_strValIdx = length (wayStrings b) + 1,
              ws_block = b\<rparr>"
  have f0: "wayFrame b ?st0"
    unfolding wayFrame_def
    by (rule exI [of _ "wayStrings b"], rule exI [of _ "wayRefs b"]) simp
  from assms obtain st where st: "stateOf (ForEachField dat wayField ?st0) = Some st"
    and b': "b' = ws_block st \<or>
      b' = (ws_block st)\<lparr>ways := ways (ws_block st) @
        [(ws_way st)\<lparr>way_send := of_nat (length (wayStrings (ws_block st))),
                     way_rend := of_nat (length (wayRefs (ws_block st)))\<rparr>]\<rparr>"
    by (auto simp add: procWay_def Let_def split: result.splits)
  have "wayFrame b st"
    by (rule ForEachField_invariant [where P = "wayFrame b" and iter = wayField, rotated 2, OF st])
      (erule (1) wayField_frame, rule f0)
  then obtain ss rs where f: "ws_block st = b\<lparr>wayStrings := ss, wayRefs := rs\<rparr>"
      "length (wayStrings b) \<le> length ss" "length (wayRefs b) \<le> length rs"
      "way_sset (ws_way st) = of_nat (length (wayStrings b))"
      "way_rset (ws_way st) = of_nat (length (wayRefs b))"
    by (auto simp add: wayFrame_def)
  from b' show ?thesis
  proof
    assume "b' = ws_block st"
    with f show ?thesis
      by (intro exI [of _ ss] exI [of _ rs] exI [of _ "[]"]) simp
  next
    assume "b' = (ws_block st)\<lparr>ways := ways (ws_block st) @
        [(ws_way st)\<lparr>way_send := of_nat (length (wayStrings (ws_block st))),
                     way_rend := of_nat (length (wayRefs (ws_block st)))\<rparr>]\<rparr>"
    with f show ?thesis
      by (intro exI [of _ ss] exI [of _ rs]
          exI [of _ "[(ws_way st)\<lparr>way_send := of_nat (length ss), way_rend := of_nat (length rs)\<rparr>]"])
        simp
  qed
qed


text \<open>The same for \<open>procRelation\<close>: the four relation arrays change, two of them carry windows.\<close>

definition relFrame :: "Block \<Rightarrow> relState \<Rightarrow> bool" where
  "relFrame b st =
     (\<exists>ss ro rf ty.
        rs_block st = b\<lparr>relationStrings := ss, relationMemberRoles := ro,
                         relationMemberRefs := rf, relationMemberTypes := ty\<rparr> \<and>
        length (relationStrings b) \<le> length ss \<and> length (relationMemberRefs b) \<le> length rf \<and>
        rel_sset (rs_relation st) = of_nat (length (relationStrings b)) \<and>
        rel_mset (rs_relation st) = of_nat (length (relationMemberRefs b)))"

lemma relFrameE:
  assumes "relFrame b st"
  obtains ss ro rf ty where
    "rs_block st = b\<lparr>relationStrings := ss, relationMemberRoles := ro,
                      relationMemberRefs := rf, relationMemberTypes := ty\<rparr>"
    "length (relationStrings b) \<le> length ss" "length (relationMemberRefs b) \<le> length rf"
    "rel_sset (rs_relation st) = of_nat (length (relationStrings b))"
    "rel_mset (rs_relation st) = of_nat (length (relationMemberRefs b))"
  using assms unfolding relFrame_def by blast

lemma relFrameI:
  assumes "rs_block st = b\<lparr>relationStrings := ss, relationMemberRoles := ro,
                      relationMemberRefs := rf, relationMemberTypes := ty\<rparr>"
    "length (relationStrings b) \<le> length ss" "length (relationMemberRefs b) \<le> length rf"
    "rel_sset (rs_relation st) = of_nat (length (relationStrings b))"
    "rel_mset (rs_relation st) = of_nat (length (relationMemberRefs b))"
  shows "relFrame b st"
  using assms unfolding relFrame_def by blast

lemma relKey_frame:
  assumes "relFrame b s" "stateOf (relKey x s) = Some s'"
  shows "relFrame b s'"
proof -
  from assms(1) obtain ss ro rf ty where f:
    "rs_block s = b\<lparr>relationStrings := ss, relationMemberRoles := ro,
                      relationMemberRefs := rf, relationMemberTypes := ty\<rparr>"
    "length (relationStrings b) \<le> length ss" "length (relationMemberRefs b) \<le> length rf"
    "rel_sset (rs_relation s) = of_nat (length (relationStrings b))"
    "rel_mset (rs_relation s) = of_nat (length (relationMemberRefs b))"
    by (rule relFrameE)
  from assms(2) have s': "s' = s\<lparr>rs_block := (rs_block s)
      \<lparr>relationStrings := relationStrings (rs_block s) @ [ucast x, 0]\<rparr>\<rparr>"
    by (simp add: relKey_def)
  show ?thesis
    unfolding s'
    by (rule relFrameI [where ss = "ss @ [ucast x, 0]" and ro = ro and rf = rf and ty = ty]) (use f in simp_all)
qed

lemma relVal_frame:
  assumes "relFrame b s" "stateOf (relVal x s) = Some s'"
  shows "relFrame b s'"
proof -
  from assms(1) obtain ss ro rf ty where f:
    "rs_block s = b\<lparr>relationStrings := ss, relationMemberRoles := ro,
                      relationMemberRefs := rf, relationMemberTypes := ty\<rparr>"
    "length (relationStrings b) \<le> length ss" "length (relationMemberRefs b) \<le> length rf"
    "rel_sset (rs_relation s) = of_nat (length (relationStrings b))"
    "rel_mset (rs_relation s) = of_nat (length (relationMemberRefs b))"
    by (rule relFrameE)
  from assms(2) have s': "s' = s\<lparr>rs_block := (rs_block s)
      \<lparr>relationStrings := (relationStrings (rs_block s))[rs_strValIdx s := ucast x]\<rparr>,
      rs_strValIdx := rs_strValIdx s + 2\<rparr>"
    by (simp add: relVal_def split: if_splits)
  show ?thesis
    unfolding s'
    by (rule relFrameI [where ss = "ss[rs_strValIdx s := ucast x]" and ro = ro and rf = rf and ty = ty]) (use f in simp_all)
qed

lemma relRole_frame:
  assumes "relFrame b s" "stateOf (relRole x s) = Some s'"
  shows "relFrame b s'"
proof -
  from assms(1) obtain ss ro rf ty where f:
    "rs_block s = b\<lparr>relationStrings := ss, relationMemberRoles := ro,
                      relationMemberRefs := rf, relationMemberTypes := ty\<rparr>"
    "length (relationStrings b) \<le> length ss" "length (relationMemberRefs b) \<le> length rf"
    "rel_sset (rs_relation s) = of_nat (length (relationStrings b))"
    "rel_mset (rs_relation s) = of_nat (length (relationMemberRefs b))"
    by (rule relFrameE)
  from assms(2) have s': "s' = s\<lparr>rs_block := (rs_block s)
      \<lparr>relationMemberRoles := relationMemberRoles (rs_block s) @ [ucast x]\<rparr>\<rparr>"
    by (simp add: relRole_def)
  show ?thesis
    unfolding s'
    by (rule relFrameI [where ss = ss and ro = "ro @ [ucast x]" and rf = rf and ty = ty]) (use f in simp_all)
qed

lemma relType_frame:
  assumes "relFrame b s" "stateOf (relType x s) = Some s'"
  shows "relFrame b s'"
proof -
  from assms(1) obtain ss ro rf ty where f:
    "rs_block s = b\<lparr>relationStrings := ss, relationMemberRoles := ro,
                      relationMemberRefs := rf, relationMemberTypes := ty\<rparr>"
    "length (relationStrings b) \<le> length ss" "length (relationMemberRefs b) \<le> length rf"
    "rel_sset (rs_relation s) = of_nat (length (relationStrings b))"
    "rel_mset (rs_relation s) = of_nat (length (relationMemberRefs b))"
    by (rule relFrameE)
  from assms(2) have s': "s' = s\<lparr>rs_block := (rs_block s)
      \<lparr>relationMemberTypes := relationMemberTypes (rs_block s) @ [ucast x]\<rparr>\<rparr>"
    by (simp add: relType_def)
  show ?thesis
    unfolding s'
    by (rule relFrameI [where ss = ss and ro = ro and rf = rf and ty = "ty @ [ucast x]"]) (use f in simp_all)
qed

lemma relMemid_frame:
  assumes "relFrame b (snd s)" "stateOf (relMemid x s) = Some s'"
  shows "relFrame b (snd s')"
proof -
  obtain a st where s: "s = (a, st)" by (cases s)
  from assms(1) s have "relFrame b st" by simp
  then obtain ss ro rf ty where f:
    "rs_block st = b\<lparr>relationStrings := ss, relationMemberRoles := ro,
                      relationMemberRefs := rf, relationMemberTypes := ty\<rparr>"
    "length (relationStrings b) \<le> length ss" "length (relationMemberRefs b) \<le> length rf"
    "rel_sset (rs_relation st) = of_nat (length (relationStrings b))"
    "rel_mset (rs_relation st) = of_nat (length (relationMemberRefs b))"
    by (rule relFrameE)
  from assms(2) s have s': "snd s' = st\<lparr>rs_block := (rs_block st)
      \<lparr>relationMemberRefs := relationMemberRefs (rs_block st) @ [a + x]\<rparr>\<rparr>"
    by (auto simp add: relMemid_def Let_def)
  show ?thesis
    unfolding s'
    by (rule relFrameI [where ss = ss and ro = ro and rf = "rf @ [a + x]" and ty = ty]) (use f in simp_all)
qed

lemma relField_frame:
  assumes "relFrame b st" "stateOf (relField f st) = Some st'"
  shows "relFrame b st'"
proof -
  consider "Num f = 1" | "Num f = 2" | "Num f = 3" | "Num f = 8" | "Num f = 9" | "Num f = 10"
    | "Num f \<noteq> 1 \<and> Num f \<noteq> 2 \<and> Num f \<noteq> 3 \<and> Num f \<noteq> 8 \<and> Num f \<noteq> 9 \<and> Num f \<noteq> 10"
    by blast
  then show ?thesis
  proof cases
    case 1
    with assms(2) have st': "st' = st\<lparr>rs_relation := (rs_relation st)\<lparr>rel_id := Uint64 f\<rparr>\<rparr>"
      by (simp add: relField_def)
    from assms(1) obtain ss ro rf ty where f:
      "rs_block st = b\<lparr>relationStrings := ss, relationMemberRoles := ro,
                      relationMemberRefs := rf, relationMemberTypes := ty\<rparr>"
      "length (relationStrings b) \<le> length ss" "length (relationMemberRefs b) \<le> length rf"
      "rel_sset (rs_relation st) = of_nat (length (relationStrings b))"
      "rel_mset (rs_relation st) = of_nat (length (relationMemberRefs b))"
      by (rule relFrameE)
    show ?thesis
      unfolding st'
      by (rule relFrameI [where ss = ss and ro = ro and rf = rf and ty = ty]) (use f in simp_all)
  next
    case 2
    with assms(2) have "stateOf (ForEachPackedUint64 (f_data f) relKey st) = Some st'"
      by (simp add: relField_def)
    then show ?thesis
      by (rule ForEachPackedUint64_invariant [where P = "relFrame b" and iter = relKey, rotated 2])
        (erule (1) relKey_frame, rule assms(1))
  next
    case 3
    with assms(2) have "stateOf (ForEachPackedUint64 (f_data f) relVal st) = Some st'"
      by (simp add: relField_def)
    then show ?thesis
      by (rule ForEachPackedUint64_invariant [where P = "relFrame b" and iter = relVal, rotated 2])
        (erule (1) relVal_frame, rule assms(1))
  next
    case 4
    with assms(2) have "stateOf (ForEachPackedUint64 (f_data f) relRole st) = Some st'"
      by (simp add: relField_def)
    then show ?thesis
      by (rule ForEachPackedUint64_invariant [where P = "relFrame b" and iter = relRole, rotated 2])
        (erule (1) relRole_frame, rule assms(1))
  next
    case 5
    with assms(2) obtain a where
      r: "stateOf (ForEachPackedInt64 (f_data f) relMemid (0, st)) = Some (a, st')"
      by (auto simp add: relField_def stateOf_mapResult)
    have "relFrame b (snd (a, st'))"
      by (rule ForEachPackedInt64_invariant
            [where P = "\<lambda>s. relFrame b (snd s)" and iter = relMemid, rotated 2, OF r])
        (erule (1) relMemid_frame, simp add: assms(1))
    then show ?thesis by simp
  next
    case 6
    with assms(2) have "stateOf (ForEachPackedUint64 (f_data f) relType st) = Some st'"
      by (simp add: relField_def)
    then show ?thesis
      by (rule ForEachPackedUint64_invariant [where P = "relFrame b" and iter = relType, rotated 2])
        (erule (1) relType_frame, rule assms(1))
  next
    case 7
    with assms show ?thesis by (auto simp add: relField_def)
  qed
qed

lemma procRelation_effect:
  assumes "stateOf (procRelation what dat b) = Some b'"
  shows "\<exists>ss ro rf ty rs.
           b' = b\<lparr>relationStrings := ss, relationMemberRoles := ro, relationMemberRefs := rf,
                  relationMemberTypes := ty, relations := relations b @ rs\<rparr> \<and>
           length (relationStrings b) \<le> length ss \<and>
           length (relationMemberRefs b) \<le> length rf \<and>
           (\<forall>r \<in> set rs.
              rel_sset r = of_nat (length (relationStrings b)) \<and> rel_send r = of_nat (length ss) \<and>
              rel_mset r = of_nat (length (relationMemberRefs b)) \<and> rel_mend r = of_nat (length rf))"
proof -
  let ?st0 = "\<lparr>rs_relation = zeroRelation
                \<lparr>rel_sset := of_nat (length (relationStrings b)),
                 rel_mset := of_nat (length (relationMemberRefs b))\<rparr>,
              rs_strValIdx = length (relationStrings b) + 1,
              rs_block = b\<rparr>"
  have f0: "relFrame b ?st0"
    by (rule relFrameI [where ss = "relationStrings b" and ro = "relationMemberRoles b"
          and rf = "relationMemberRefs b" and ty = "relationMemberTypes b"]) simp_all
  from assms obtain st where st: "stateOf (ForEachField dat relField ?st0) = Some st"
    and b': "b' = rs_block st \<or>
      b' = (rs_block st)\<lparr>relations := relations (rs_block st) @
        [(rs_relation st)\<lparr>rel_send := of_nat (length (relationStrings (rs_block st))),
                          rel_mend := of_nat (length (relationMemberRefs (rs_block st)))\<rparr>]\<rparr>"
    by (auto simp add: procRelation_def Let_def split: result.splits)
  have "relFrame b st"
    by (rule ForEachField_invariant [where P = "relFrame b" and iter = relField, rotated 2, OF st])
      (erule (1) relField_frame, rule f0)
  then obtain ss ro rf ty where f:
    "rs_block st = b\<lparr>relationStrings := ss, relationMemberRoles := ro,
                      relationMemberRefs := rf, relationMemberTypes := ty\<rparr>"
    "length (relationStrings b) \<le> length ss" "length (relationMemberRefs b) \<le> length rf"
    "rel_sset (rs_relation st) = of_nat (length (relationStrings b))"
    "rel_mset (rs_relation st) = of_nat (length (relationMemberRefs b))"
    by (rule relFrameE)
  from b' show ?thesis
  proof
    assume "b' = rs_block st"
    with f show ?thesis
      by (intro exI [of _ ss] exI [of _ ro] exI [of _ rf] exI [of _ ty] exI [of _ "[]"]) simp
  next
    assume "b' = (rs_block st)\<lparr>relations := relations (rs_block st) @
        [(rs_relation st)\<lparr>rel_send := of_nat (length (relationStrings (rs_block st))),
                          rel_mend := of_nat (length (relationMemberRefs (rs_block st)))\<rparr>]\<rparr>"
    with f show ?thesis
      by (intro exI [of _ ss] exI [of _ ro] exI [of _ rf] exI [of _ ty]
          exI [of _ "[(rs_relation st)\<lparr>rel_send := of_nat (length ss),
                                       rel_mend := of_nat (length rf)\<rparr>]"])
        simp
  qed
qed


text \<open>
  The second pass of \<open>procDenseNodes\<close> over an array of \<open>L\<close> strings: the array keeps
  its length, and when \<open>L\<close> is below \<open>2^32\<close> (so that \<open>stringIdx\<close> does not wrap around)
  every node's window is well-formed and within the \<open>L\<close> strings.
\<close>

definition nodeOk :: "nat \<Rightarrow> blockNode \<Rightarrow> bool" where
  "nodeOk L n = (node_sset n \<le> node_send n \<and> unat (node_send n) \<le> L)"

definition denseInv :: "nat \<Rightarrow> denseState \<Rightarrow> bool" where
  "denseInv L st =
     (length (ds_nodeStrings st) = L \<and> (L < 2 ^ 32 \<longrightarrow> list_all (nodeOk L) (ds_nodes st)))"

definition kvInv :: "nat \<Rightarrow> kvState \<times> denseState \<Rightarrow> bool" where
  "kvInv L = (\<lambda>(kv, st). length (ds_nodeStrings st) = L \<and>
     (L < 2 ^ 32 \<longrightarrow> list_all (nodeOk L) (ds_nodes st) \<and>
        (kv_first kv \<longrightarrow> kv_nodeIdx kv < length (ds_nodes st) \<and>
           node_sset (ds_nodes st ! kv_nodeIdx kv) \<le> kv_stringIdx kv)))"

lemma list_all_update:
  "list_all P xs \<Longrightarrow> P x \<Longrightarrow> list_all P (xs[i := x])"
  by (auto simp add: list_all_iff dest: set_update_subset_insert [THEN subsetD])

lemma list_all_nth: "list_all P xs \<Longrightarrow> i < length xs \<Longrightarrow> P (xs ! i)"
  by (simp add: list_all_length)

lemma unat_succ32:
  assumes "unat (w :: uint32) < L" "L < 2 ^ 32"
  shows "unat (w + 1) = unat w + 1"
proof -
  have "unat w + unat (1 :: uint32) < 2 ^ LENGTH(32)" using assms by simp
  then have "unat (w + 1) = unat w + unat (1 :: uint32)" by (simp only: unat_add_lem)
  then show ?thesis by simp
qed

text \<open>A step that rewrites one node without touching its window keeps the invariant.\<close>

lemma denseInv_update:
  assumes inv: "denseInv L st" and i: "i < length (ds_nodes st)"
    and n: "node_sset n = node_sset (ds_nodes st ! i)" "node_send n = node_send (ds_nodes st ! i)"
    and st': "ds_nodes st' = (ds_nodes st)[i := n]" "ds_nodeStrings st' = ds_nodeStrings st"
  shows "denseInv L st'"
proof -
  from inv have len: "length (ds_nodeStrings st) = L"
    and ok: "L < 2 ^ 32 \<Longrightarrow> list_all (nodeOk L) (ds_nodes st)"
    by (simp_all add: denseInv_def)
  have "list_all (nodeOk L) (ds_nodes st')" if L: "L < 2 ^ 32"
  proof -
    from list_all_nth [OF ok [OF L] i] n have "nodeOk L n" by (simp add: nodeOk_def)
    with ok [OF L] show ?thesis unfolding st' by (rule list_all_update)
  qed
  with len st' show ?thesis by (simp add: denseInv_def)
qed

lemma denseId_inv:
  assumes "denseInv L (snd s)" "stateOf (denseId x s) = Some s'"
  shows "denseInv L (snd s')"
proof -
  obtain i st where s: "s = (i, st)" by (cases s)
  from assms(2) s have i: "i < length (ds_nodes st)"
    and s': "snd s' = st\<lparr>ds_idAdder := ds_idAdder st + x,
        ds_nodes := (ds_nodes st)[i := (ds_nodes st ! i)\<lparr>node_id := ds_idAdder st + x\<rparr>]\<rparr>"
    by (auto simp add: denseId_def Let_def split: if_splits)
  from assms(1) s have "denseInv L st" by simp
  then show ?thesis
    unfolding s' using i by (rule denseInv_update) simp_all
qed

lemma denseLat_inv:
  assumes "denseInv L (snd s)" "stateOf (denseLat b x s) = Some s'"
  shows "denseInv L (snd s')"
proof -
  obtain i st where s: "s = (i, st)" by (cases s)
  from assms(2) s have i: "i < length (ds_nodes st)"
    and s': "snd s' = st\<lparr>ds_latAdder := ds_latAdder st + x,
        ds_nodes := (ds_nodes st)[i := (ds_nodes st ! i)
          \<lparr>node_lat := latOffset b + granularity b * (ds_latAdder st + x)\<rparr>]\<rparr>"
    by (auto simp add: denseLat_def Let_def split: if_splits)
  from assms(1) s have "denseInv L st" by simp
  then show ?thesis
    unfolding s' using i by (rule denseInv_update) simp_all
qed

lemma denseLon_inv:
  assumes "denseInv L (snd s)" "stateOf (denseLon b x s) = Some s'"
  shows "denseInv L (snd s')"
proof -
  obtain i st where s: "s = (i, st)" by (cases s)
  from assms(2) s have i: "i < length (ds_nodes st)"
    and s': "snd s' = st\<lparr>ds_lonAdder := ds_lonAdder st + x,
        ds_nodes := (ds_nodes st)[i := (ds_nodes st ! i)
          \<lparr>node_lon := lonOffset b + granularity b * (ds_lonAdder st + x)\<rparr>]\<rparr>"
    by (auto simp add: denseLon_def Let_def split: if_splits)
  from assms(1) s have "denseInv L st" by simp
  then show ?thesis
    unfolding s' using i by (rule denseInv_update) simp_all
qed

lemma denseKeysVals_inv:
  assumes inv: "kvInv L s" and run: "stateOf (denseKeysVals x s) = Some s'"
  shows "kvInv L s'"
proof -
  obtain kv st where s: "s = (kv, st)" by (cases s)
  from inv s have len: "length (ds_nodeStrings st) = L"
    and ok: "L < 2 ^ 32 \<Longrightarrow> list_all (nodeOk L) (ds_nodes st)"
    and first: "L < 2 ^ 32 \<Longrightarrow> kv_first kv \<Longrightarrow> kv_nodeIdx kv < length (ds_nodes st) \<and>
        node_sset (ds_nodes st ! kv_nodeIdx kv) \<le> kv_stringIdx kv"
    by (simp_all add: kvInv_def)
  show ?thesis
  proof (cases "\<not> kv_which kv \<and> x = 0")
    case True
    with run s have "s' = (kv\<lparr>kv_nodeIdx := kv_nodeIdx kv + 1, kv_first := False\<rparr>, st)"
      by (simp add: denseKeysVals_def)
    with len ok show ?thesis by (simp add: kvInv_def)
  next
    case False
    let ?j = "kv_nodeIdx kv"
    let ?i = "kv_stringIdx kv"
    let ?ns1 = "if \<not> kv_first kv
                then (ds_nodes st)[?j := (ds_nodes st ! ?j)\<lparr>node_sset := ?i\<rparr>]
                else ds_nodes st"
    let ?ns2 = "?ns1[?j := (?ns1 ! ?j)\<lparr>node_send := ?i + 1\<rparr>]"
    from run s False have j: "?j < length (ds_nodes st)" and i: "unat ?i < length (ds_nodeStrings st)"
      by (auto simp add: denseKeysVals_def split: if_splits)
    from run s False j i have s': "s' =
        (kv\<lparr>kv_stringIdx := ?i + 1, kv_which := \<not> kv_which kv, kv_first := True\<rparr>,
         st\<lparr>ds_nodes := ?ns2, ds_nodeStrings := (ds_nodeStrings st)[unat ?i := ucast x]\<rparr>)"
      by (simp add: denseKeysVals_def Let_def)
    from i len have iL: "unat ?i < L" by simp
    let ?n = "(?ns1 ! ?j)\<lparr>node_send := ?i + 1\<rparr>"
    have ns2: "?ns2 = (ds_nodes st)[?j := ?n]" by simp
    have at: "?ns2 ! ?j = ?n" unfolding ns2 using j by simp
    have len2: "length ?ns2 = length (ds_nodes st)" by simp
    have cond: "list_all (nodeOk L) ?ns2 \<and> node_sset (?ns2 ! ?j) \<le> ?i + 1" if L: "L < 2 ^ 32"
    proof -
      have suc: "unat (?i + 1) = unat ?i + 1" using iL L by (rule unat_succ32)
      then have le: "?i \<le> ?i + 1" by (simp add: word_le_nat_alt)
      have sset: "node_sset (?ns1 ! ?j) \<le> ?i" using first [OF L] j by simp
      then have sset': "node_sset ?n \<le> ?i + 1" using le by simp
      have new: "nodeOk L ?n"
        using sset' suc iL by (simp add: nodeOk_def)
      have "list_all (nodeOk L) ?ns2"
        unfolding ns2 using ok [OF L] new by (rule list_all_update)
      with sset' at show ?thesis by simp
    qed
    show ?thesis
      unfolding s' kvInv_def using len j len2 cond by simp
  qed
qed

lemma fillDense_inv:
  assumes inv: "denseInv L st" and run: "stateOf (fillDense b f st) = Some st'"
  shows "denseInv L st'"
proof -
  consider "Num f = 1" | "Num f = 8" | "Num f = 9" | "Num f = 10"
    | "Num f \<noteq> 1 \<and> Num f \<noteq> 8 \<and> Num f \<noteq> 9 \<and> Num f \<noteq> 10" by blast
  then show ?thesis
  proof cases
    case 1
    with run obtain i where
      r: "stateOf (ForEachPackedInt64 (f_data f) denseId (0, st)) = Some (i, st')"
      by (auto simp add: fillDense_def stateOf_mapResult)
    have "denseInv L (snd (i, st'))"
      by (rule ForEachPackedInt64_invariant
            [where P = "\<lambda>s. denseInv L (snd s)" and iter = denseId, rotated 2, OF r])
        (erule (1) denseId_inv, simp add: inv)
    then show ?thesis by simp
  next
    case 2
    with run obtain i where
      r: "stateOf (ForEachPackedInt64 (f_data f) (denseLat b) (0, st)) = Some (i, st')"
      by (auto simp add: fillDense_def stateOf_mapResult)
    have "denseInv L (snd (i, st'))"
      by (rule ForEachPackedInt64_invariant
            [where P = "\<lambda>s. denseInv L (snd s)" and iter = "denseLat b", rotated 2, OF r])
        (erule (1) denseLat_inv, simp add: inv)
    then show ?thesis by simp
  next
    case 3
    with run obtain i where
      r: "stateOf (ForEachPackedInt64 (f_data f) (denseLon b) (0, st)) = Some (i, st')"
      by (auto simp add: fillDense_def stateOf_mapResult)
    have "denseInv L (snd (i, st'))"
      by (rule ForEachPackedInt64_invariant
            [where P = "\<lambda>s. denseInv L (snd s)" and iter = "denseLon b", rotated 2, OF r])
        (erule (1) denseLon_inv, simp add: inv)
    then show ?thesis by simp
  next
    case 4
    with run obtain kv where
      r: "stateOf (ForEachPackedUint64 (f_data f) denseKeysVals (kvStart, st)) = Some (kv, st')"
      by (auto simp add: fillDense_def stateOf_mapResult)
    have "kvInv L (kv, st')"
      by (rule ForEachPackedUint64_invariant
            [where P = "kvInv L" and iter = denseKeysVals, rotated 2, OF r])
        (erule (1) denseKeysVals_inv, use inv in \<open>simp add: kvInv_def kvStart_def denseInv_def\<close>)
    then show ?thesis by (simp add: kvInv_def denseInv_def)
  next
    case 5
    with run inv show ?thesis by (auto simp add: fillDense_def)
  qed
qed

text \<open>
  \<open>procDenseNodes\<close> leaves the block as it was (on an error) or appends nodes and strings;
  when fewer than \<open>2^32\<close> strings are appended, the windows of the new nodes are
  well-formed and within them.
\<close>

lemma procDenseNodes_effect:
  assumes "stateOf (procDenseNodes what dat b) = Some b'"
  shows "\<exists>ns strs. b' = b\<lparr>nodes := nodes b @ ns, nodeStrings := nodeStrings b @ strs\<rparr> \<and>
           (length strs < 2 ^ 32 \<longrightarrow> list_all (nodeOk (length strs)) ns)"
proof -
  have same: ?thesis if "b' = b"
    using that by (intro exI [of _ "[]"]) simp
  show ?thesis
  proof (cases "ForEachField dat countDense (0, 0)")
    case Panic
    with assms show ?thesis by (simp add: procDenseNodes_def)
  next
    case (Error e c)
    with assms have "b' = b" by (simp add: procDenseNodes_def)
    then show ?thesis by (rule same)
  next
    case (Ok p)
    obtain numNodes numStrings where p: "p = (numNodes, numStrings)" by (cases p)
    let ?st0 = "\<lparr>ds_nodes = replicate numNodes zeroNode, ds_nodeStrings = replicate numStrings 0,
           ds_idAdder = 0, ds_latAdder = 0, ds_lonAdder = 0\<rparr>"
    show ?thesis
    proof (cases "ForEachField dat (fillDense b) ?st0")
      case Panic
      with assms Ok p show ?thesis by (simp add: procDenseNodes_def)
    next
      case (Error e st)
      with assms Ok p have "b' = b" by (simp add: procDenseNodes_def)
      then show ?thesis by (rule same)
    next
      case fill: (Ok st)
      with assms Ok p have b': "b' = b\<lparr>nodes := nodes b @ ds_nodes st,
               nodeStrings := nodeStrings b @ ds_nodeStrings st\<rparr>"
        by (simp add: procDenseNodes_def)
      from fill have run: "stateOf (ForEachField dat (fillDense b) ?st0) = Some st" by simp
      have i0: "denseInv numStrings ?st0"
        by (simp add: denseInv_def list_all_iff nodeOk_def zeroNode_def)
      have "denseInv numStrings st"
        by (rule ForEachField_invariant
              [where P = "denseInv numStrings" and iter = "fillDense b", rotated 2, OF run])
          (erule (1) fillDense_inv, rule i0)
      then have "length (ds_nodeStrings st) < 2 ^ 32 \<longrightarrow>
          list_all (nodeOk (length (ds_nodeStrings st))) (ds_nodes st)"
        by (auto simp add: denseInv_def)
      with b' show ?thesis by blast
    qed
  qed
qed


section \<open>The data kind of a block\<close>

text \<open>
  The kind a subfield of a primitive group stands for, and the kinds of all such
  subfields of all primitive groups of a block, in the order of the bytes.
\<close>

definition kindOf :: "Field \<Rightarrow> int option" where
  "kindOf f =
     (if Num f = 2 then Some 0 else if Num f = 3 then Some 1 else if Num f = 4 then Some 2
      else None)"

definition fieldList :: "byte list \<Rightarrow> Field list" where
  "fieldList bytes = (case fieldsOf bytes of Ok fs \<Rightarrow> fs | Error e fs \<Rightarrow> fs | Panic \<Rightarrow> [])"

definition groupsOf :: "byte list \<Rightarrow> byte list list" where
  "groupsOf dat = map Data (filter (\<lambda>f. Num f = 2) (fieldList dat))"

definition groupKinds :: "byte list \<Rightarrow> int list" where
  "groupKinds dat = List.map_filter kindOf (concat (map fieldList (groupsOf dat)))"

lemma replay_Ok:
  "replay iter r s = Ok s' \<Longrightarrow> \<exists>xs. r = Ok xs \<and> foldResult iter xs s = Ok s'"
  by (cases r) (auto split: result.splits)

lemma groupField_dataKind:
  assumes "stateOf (groupField what f b) = Some b'"
  shows "dataKind b' = (case kindOf f of Some k \<Rightarrow> k | None \<Rightarrow> dataKind b)"
proof -
  consider "Num f = 1" | "Num f = 2" | "Num f = 3" | "Num f = 4"
    | "Num f \<noteq> 1 \<and> Num f \<noteq> 2 \<and> Num f \<noteq> 3 \<and> Num f \<noteq> 4" by blast
  then show ?thesis
  proof cases
    case 1
    with assms show ?thesis by (simp add: groupField_def kindOf_def)
  next
    case 2
    show ?thesis
    proof (cases "what = Everything \<or> what = Nodes")
      case True
      with assms 2 have "stateOf (procDenseNodes what (Data f) (b\<lparr>dataKind := 0\<rparr>)) = Some b'"
        by (simp add: groupField_def stateOf_dropError)
      from procDenseNodes_effect [OF this] 2 show ?thesis by (auto simp add: kindOf_def)
    next
      case False
      with assms 2 show ?thesis by (auto simp add: groupField_def kindOf_def)
    qed
  next
    case 3
    show ?thesis
    proof (cases "what = Everything \<or> what = Ways")
      case True
      with assms 3 have "stateOf (procWay what (Data f) (b\<lparr>dataKind := 1\<rparr>)) = Some b'"
        by (simp add: groupField_def stateOf_dropError)
      from procWay_effect [OF this] 3 show ?thesis by (auto simp add: kindOf_def)
    next
      case False
      with assms 3 show ?thesis by (auto simp add: groupField_def kindOf_def)
    qed
  next
    case 4
    show ?thesis
    proof (cases "what = Everything \<or> what = Relations")
      case True
      with assms 4 have "stateOf (procRelation what (Data f) (b\<lparr>dataKind := 2\<rparr>)) = Some b'"
        by (simp add: groupField_def stateOf_dropError)
      from procRelation_effect [OF this] 4 show ?thesis by (auto simp add: kindOf_def)
    next
      case False
      with assms 4 show ?thesis by (auto simp add: groupField_def kindOf_def)
    qed
  next
    case 5
    with assms show ?thesis by (auto simp add: groupField_def kindOf_def split: if_splits)
  qed
qed

lemma groupFields_dataKind:
  "foldResult (groupField what) fs b = Ok b' \<Longrightarrow>
     dataKind b' = last (dataKind b # List.map_filter kindOf fs)"
proof (induction fs arbitrary: b)
  case Nil
  then show ?case by simp
next
  case (Cons f fs)
  from Cons.prems obtain b1 where 1: "groupField what f b = Ok b1"
    and 2: "foldResult (groupField what) fs b1 = Ok b'"
    by (auto split: result.splits)
  from 1 have "dataKind b1 = (case kindOf f of Some k \<Rightarrow> k | None \<Rightarrow> dataKind b)"
    using groupField_dataKind [of what f b b1] by simp
  with Cons.IH [OF 2] show ?case
    by (cases "kindOf f") simp_all
qed

lemma procPrimativeGroup_dataKind:
  assumes "procPrimativeGroup what g b = Ok b'"
  shows "dataKind b' = last (dataKind b # List.map_filter kindOf (fieldList g))"
proof -
  from assms have "replay (groupField what) (fieldsOf g) b = Ok b'"
    by (simp add: procPrimativeGroup_def ForEachField_replay)
  from replay_Ok [OF this] obtain fs where "fieldsOf g = Ok fs"
    "foldResult (groupField what) fs b = Ok b'" by blast
  with groupFields_dataKind [of what fs b b'] show ?thesis by (simp add: fieldList_def)
qed

lemma last_map_filter_append:
  "last (last (k # List.map_filter h xs) # List.map_filter h ys) = last (k # List.map_filter h (xs @ ys))"
  by (simp add: List.map_filter_def)

lemma procGroups_dataKind:
  "procGroups what gs b = Ok b' \<Longrightarrow>
     dataKind b' = last (dataKind b # List.map_filter kindOf (concat (map fieldList gs)))"
proof (induction gs arbitrary: b)
  case Nil
  then show ?case by simp
next
  case (Cons g gs)
  from Cons.prems obtain b1 where 1: "procPrimativeGroup what g b = Ok b1"
    and 2: "procGroups what gs b1 = Ok b'"
    by (auto split: result.splits)
  have "dataKind b' = last (dataKind b1 # List.map_filter kindOf (concat (map fieldList gs)))"
    by (rule Cons.IH [OF 2])
  also have "dataKind b1 = last (dataKind b # List.map_filter kindOf (fieldList g))"
    by (rule procPrimativeGroup_dataKind [OF 1])
  also have "last (last (dataKind b # List.map_filter kindOf (fieldList g)) #
               List.map_filter kindOf (concat (map fieldList gs))) =
             last (dataKind b # List.map_filter kindOf (fieldList g @ concat (map fieldList gs)))"
    by (rule last_map_filter_append)
  finally show ?case by simp
qed


lemma procStringTable_effect:
  assumes "stateOf (procStringTable what dat b) = Some b'"
  shows "\<exists>c ss one. b' = b\<lparr>stringsCount := c, strings := ss, stringsOne := one\<rparr>"
proof (cases "ForEachField dat countString (0, 0)")
  case Panic
  with assms show ?thesis by (simp add: procStringTable_def)
next
  case (Error e c)
  with assms have "b' = b" by (simp add: procStringTable_def)
  then have "b' = b\<lparr>stringsCount := stringsCount b, strings := strings b, stringsOne := stringsOne b\<rparr>"
    by simp
  then show ?thesis by blast
next
  case (Ok cl)
  obtain count len where cl: "cl = (count, len)" by (cases cl)
  let ?P = "\<lambda>s. \<exists>ss. snd s = b\<lparr>stringsCount := count, strings := ss\<rparr>"
  let ?run = "ForEachField dat addString ([], b\<lparr>stringsCount := count, strings := []\<rparr>)"
  have step: "\<And>f s s'. ?P s \<Longrightarrow> stateOf (addString f s) = Some s' \<Longrightarrow> ?P s'"
    by (auto simp add: addString_def split: prod.splits)
  have init: "?P ([], b\<lparr>stringsCount := count, strings := []\<rparr>)"
    by (simp only: snd_conv) (rule exI, rule refl)
  from assms Ok cl obtain one blk where run: "stateOf ?run = Some (one, blk)"
    and b': "b' = blk\<lparr>stringsOne := one\<rparr>"
    by (cases ?run) (auto simp add: procStringTable_def split: prod.splits)
  have "?P (one, blk)"
    by (rule ForEachField_invariant [where P = ?P and iter = addString, rotated 2, OF run])
      (erule (1) step, rule init)
  then obtain ss where "blk = b\<lparr>stringsCount := count, strings := ss\<rparr>" by auto
  with b' show ?thesis by blast
qed

lemma blockFields_Everything:
  "foldResult (blockField Everything) fs st = Ok st' \<Longrightarrow>
     dataKind (bs_block st') = dataKind (bs_block st) \<and>
     bs_primativeGroups st' = bs_primativeGroups st @ map Data (filter (\<lambda>f. Num f = 2) fs)"
proof (induction fs arbitrary: st)
  case Nil
  then show ?case by simp
next
  case (Cons f fs)
  from Cons.prems obtain st1 where 1: "blockField Everything f st = Ok st1"
    and 2: "foldResult (blockField Everything) fs st1 = Ok st'"
    by (auto split: result.splits)
  from 1 have "dataKind (bs_block st1) = dataKind (bs_block st) \<and>
      bs_primativeGroups st1 = bs_primativeGroups st @ (if Num f = 2 then [Data f] else [])"
    by (auto simp add: blockField_def split: if_splits)
  with Cons.IH [OF 2] show ?case by simp
qed

text \<open>
  C3, as the code has it. A block decoded with the \<open>Everything\<close> filter has the kind of the last
  subfield #2, #3 or #4 of its primitive groups, in the order of the bytes, and kind 0
  when no primitive group has such a subfield: every such subfield overwrites
  \<open>dataKind\<close>.
\<close>

theorem data_kind_is_last_group_kind:
  assumes "procBlock Everything dat = Ok b"
  shows "dataKind b = last (0 # groupKinds dat)"
proof -
  let ?st0 = "\<lparr>bs_block = zeroBlock\<lparr>granularity := 100, dateGranularity := 1000\<rparr>,
               bs_stringTable = [], bs_primativeGroups = []\<rparr>"
  from assms obtain st b1 where
    run: "ForEachField dat (blockField Everything) ?st0 = Ok st" and
    str: "procStringTable Everything (bs_stringTable st) (bs_block st) = Ok b1" and
    grp: "procGroups Everything (bs_primativeGroups st) b1 = Ok b"
    by (auto simp add: procBlock_def split: result.splits)
  from run have "replay (blockField Everything) (fieldsOf dat) ?st0 = Ok st"
    by (simp add: ForEachField_replay)
  from replay_Ok [OF this] obtain fs where fs: "fieldsOf dat = Ok fs"
    and fold: "foldResult (blockField Everything) fs ?st0 = Ok st" by blast
  from blockFields_Everything [OF fold]
  have k0: "dataKind (bs_block st) = 0"
    and gs: "bs_primativeGroups st = map Data (filter (\<lambda>f. Num f = 2) fs)"
    by (simp_all add: zeroBlock_def)
  from str have "stateOf (procStringTable Everything (bs_stringTable st) (bs_block st)) = Some b1"
    by simp
  from procStringTable_effect [OF this] k0 have k1: "dataKind b1 = 0" by auto
  from fs gs have "bs_primativeGroups st = groupsOf dat"
    by (simp add: groupsOf_def fieldList_def)
  with procGroups_dataKind [OF grp] k1 show ?thesis by (simp add: groupKinds_def)
qed

definition nodesThenWay :: "byte list" where
  "nodesThenWay = [0x12, 5, 0x12, 3, 0x0A, 1, 2, 0x12, 4, 0x1A, 2, 0x08, 7]"

definition nodesThenWayBlock :: Block where
  "nodesThenWayBlock =
     zeroBlock\<lparr>granularity := 100, dateGranularity := 1000, dataKind := 1,
       nodes := [zeroNode\<lparr>node_id := 1\<rparr>], ways := [zeroWay\<lparr>way_id := 7\<rparr>]\<rparr>"

theorem data_kind_is_last_group_kind_witness:
  "procBlock Everything nodesThenWay = Ok nodesThenWayBlock \<and>
   dataKind nodesThenWayBlock = last (0 # groupKinds nodesThenWay)"
proof -
  have ev: "procBlock Everything nodesThenWay = Ok nodesThenWayBlock" by code_simp
  from data_kind_is_last_group_kind [OF ev] ev show ?thesis by simp
qed

theorem data_kind_first_group_counterexample:
  "procBlock Everything nodesThenWay = Ok nodesThenWayBlock \<and>
   groupKinds nodesThenWay = [0, 1] \<and>
   hd (groupKinds nodesThenWay) = 0 \<and>
   dataKind nodesThenWayBlock = 1"
  by code_simp


section \<open>The index windows of a block\<close>

text \<open>
  A window \<open>lo\<close>, \<open>hi\<close> into an array is well-formed and in bounds. The indices are
  \<open>uint32\<close>; a block is small when the five arrays the windows point into have fewer
  than \<open>2 ^ 32\<close> entries, so that no index wrapped around.
\<close>

definition windowIn :: "'a list \<Rightarrow> uint32 \<Rightarrow> uint32 \<Rightarrow> bool" where
  "windowIn a lo hi = (lo \<le> hi \<and> unat hi \<le> length a)"

definition small :: "Block \<Rightarrow> bool" where
  "small b =
     (length (nodeStrings b) < 2 ^ 32 \<and> length (wayStrings b) < 2 ^ 32 \<and>
      length (wayRefs b) < 2 ^ 32 \<and> length (relationStrings b) < 2 ^ 32 \<and>
      length (relationMemberRefs b) < 2 ^ 32)"

definition nodeWindows :: "Block \<Rightarrow> blockNode \<Rightarrow> bool" where
  "nodeWindows b = (\<lambda>n. windowIn (nodeStrings b) (node_sset n) (node_send n))"

definition wayWindows :: "Block \<Rightarrow> blockWay \<Rightarrow> bool" where
  "wayWindows b =
     (\<lambda>w. windowIn (wayStrings b) (way_sset w) (way_send w) \<and>
          windowIn (wayRefs b) (way_rset w) (way_rend w))"

definition relationWindows :: "Block \<Rightarrow> blockRelation \<Rightarrow> bool" where
  "relationWindows b =
     (\<lambda>r. windowIn (relationStrings b) (rel_sset r) (rel_send r) \<and>
          windowIn (relationMemberRefs b) (rel_mset r) (rel_mend r))"

definition windowsOk :: "Block \<Rightarrow> bool" where
  "windowsOk b =
     (list_all (nodeWindows b) (nodes b) \<and> list_all (wayWindows b) (ways b) \<and>
      list_all (relationWindows b) (relations b))"

definition windowsInv :: "Block \<Rightarrow> bool" where
  "windowsInv b = (small b \<longrightarrow> windowsOk b)"




lemma windowsInv_dataKind [simp]: "windowsInv (b\<lparr>dataKind := k\<rparr>) = windowsInv b"
  by (simp add: windowsInv_def small_def windowsOk_def nodeWindows_def wayWindows_def
      relationWindows_def)











text \<open>
  Why the arrays have to be small: a way decoded when \<open>wayStrings\<close> holds \<open>2 ^ 32 - 2\<close>
  entries gets a window that starts at \<open>2 ^ 32 - 2\<close> and ends at \<open>0\<close>.
\<close>

lemma way_window_wraps:
  assumes "length (wayStrings b) = 2 ^ 32 - 2"
  shows "\<exists>b' w. procWay what [0x12, 1, 1] b = Ok b' \<and> ways b' = ways b @ [w] \<and>
           length (wayStrings b') = 2 ^ 32 \<and> way_sset w = 0xFFFFFFFE \<and> way_send w = 0"
proof -
  let ?st0 = "\<lparr>ws_way = zeroWay\<lparr>way_sset := of_nat (length (wayStrings b)),
                                way_rset := of_nat (length (wayRefs b))\<rparr>,
              ws_strValIdx = length (wayStrings b) + 1,
              ws_block = b\<rparr>"
  let ?kf = "\<lparr>f_num = 2, f_typ = 2, f_data = [1]\<rparr>"
  have fields: "fieldsOf [0x12, 1, 1] = Ok [?kf]" by code_simp
  have keys: "packedUint64s [1] = Ok [1]" by code_simp
  have num: "Num ?kf = 2" by (simp add: Num_def)
  have "wayField ?kf ?st0 = foldResult wayKey [1] ?st0"
    using num keys by (simp add: wayField_def ForEachPackedUint64_replay)
  also have "\<dots> = Ok (?st0\<lparr>ws_block := b\<lparr>wayStrings := wayStrings b @ [1, 0]\<rparr>\<rparr>)"
    by (simp add: wayKey_def)
  finally have "ForEachField [0x12, 1, 1] wayField ?st0 =
      Ok (?st0\<lparr>ws_block := b\<lparr>wayStrings := wayStrings b @ [1, 0]\<rparr>\<rparr>)"
    by (simp add: ForEachField_replay fields)
  moreover have "(of_nat (2 ^ 32 - 2) :: uint32) = 0xFFFFFFFE" by simp
  moreover have "(of_nat (Suc (Suc (2 ^ 32 - 2))) :: uint32) = 0" by simp
  ultimately show ?thesis using assms by (simp add: procWay_def Let_def zeroWay_def)
qed









end
